theory Spec2Isabelle
  imports Complex_Main "HOL-Library.Sublist" "HOL-Library.Multiset"
begin

section \<open>Strings of the search core\<close>

text \<open>
  The search core of \<open>src/assets/js/site.js\<close> (\<open>normalize\<close>, \<open>levenshtein\<close>,
  \<open>overlapScore\<close>, \<open>searchIndex\<close>, \<open>getDidYouMeanSuggestions\<close>) works on JavaScript
  strings. A string is modelled as a \<open>string\<close>, one \<open>char\<close> per UTF-16 code unit, so the
  model covers the strings whose code units lie in U+0000..U+00FF (ASCII and Latin-1).
  On that range \<open>toLowerCase\<close> maps a string to one of the same length, letter by letter.
\<close>

definition is_space :: "char \<Rightarrow> bool" where
  \<comment> \<open>The class \<open>\s\<close> of a JavaScript regular expression, which is also what \<open>trim\<close>
      removes: TAB, LF, VT, FF, CR, SPACE and NO-BREAK SPACE are its members below U+0100.\<close>
  "is_space c = (c \<in> set [CHR 0x09, CHR 0x0A, CHR 0x0B, CHR 0x0C, CHR 0x0D, CHR 0x20, CHR 0xA0])"

definition is_lower_alnum :: "char \<Rightarrow> bool" where
  \<comment> \<open>The class \<open>[a-z0-9]\<close>.\<close>
  "is_lower_alnum c = (c \<in> set ''abcdefghijklmnopqrstuvwxyz0123456789'')"

definition toLowerChar :: "char \<Rightarrow> char" where
  \<comment> \<open>A-Z, and the Latin-1 capitals U+00C0..U+00DE without the multiplication sign U+00D7,
      move up by 32; every other code unit below U+0100 is its own lower case.\<close>
  "toLowerChar c =
     (let n = (of_char c :: nat)
      in if (65 \<le> n \<and> n \<le> 90) \<or> (192 \<le> n \<and> n \<le> 214) \<or> (216 \<le> n \<and> n \<le> 222)
         then char_of (n + 32) else c)"

definition toLowerCase :: "string \<Rightarrow> string" where
  "toLowerCase s = map toLowerChar s"

definition replace_non_alnum :: "string \<Rightarrow> string" where
  \<comment> \<open>\<open>.replace(/[^a-z0-9\s]/g, " ")\<close>\<close>
  "replace_non_alnum s = map (\<lambda>c. if is_lower_alnum c \<or> is_space c then c else CHR '' '') s"

function collapse_spaces :: "string \<Rightarrow> string" where
  \<comment> \<open>\<open>.replace(/\s+/g, " ")\<close>: every maximal run of white space becomes one space.\<close>
  "collapse_spaces [] = []"
| "collapse_spaces (c # cs) =
     (if is_space c then CHR '' '' # collapse_spaces (dropWhile is_space cs)
      else c # collapse_spaces cs)"
  by pat_completeness auto
termination
  by (relation "measure length") (auto simp: length_dropWhile_le less_Suc_eq_le)

definition trim :: "string \<Rightarrow> string" where
  \<comment> \<open>\<open>.trim()\<close>: white space is dropped at both ends.\<close>
  "trim s = rev (dropWhile is_space (rev (dropWhile is_space s)))"

definition normalize_text :: "string \<Rightarrow> string" where
  \<comment> \<open>\<open>normalize\<close> of the source (the name \<open>normalize\<close> is taken in HOL). For a string
      argument \<open>String(str || "")\<close> is the argument itself.\<close>
  "normalize_text str = trim (collapse_spaces (replace_non_alnum (toLowerCase str)))"

definition str_includes :: "string \<Rightarrow> string \<Rightarrow> bool" where
  \<comment> \<open>\<open>s.includes(t)\<close>: \<open>t\<close> occurs in \<open>s\<close> as a contiguous run of code units.\<close>
  "str_includes s t = sublist t s"

fun join :: "string \<Rightarrow> string list \<Rightarrow> string" where
  \<comment> \<open>\<open>xs.join(sep)\<close>\<close>
  "join sep [] = []"
| "join sep [x] = x"
| "join sep (x # y # ys) = x @ sep @ join sep (y # ys)"

fun split_on :: "char \<Rightarrow> string \<Rightarrow> string \<Rightarrow> string list" where
  \<comment> \<open>\<open>s.split(" ")\<close>, the piece being read kept reversed in the second argument:
      \<open>"".split(" ")\<close> is \<open>[""]\<close> and two separators in a row give an empty piece.\<close>
  "split_on sep cur [] = [rev cur]"
| "split_on sep cur (c # cs) =
     (if c = sep then rev cur # split_on sep [] cs else split_on sep (c # cur) cs)"

function split_spaces :: "string \<Rightarrow> string \<Rightarrow> string list" where
  \<comment> \<open>\<open>s.split(/\s+/)\<close>: the separators are the maximal runs of white space.\<close>
  "split_spaces cur [] = [rev cur]"
| "split_spaces cur (c # cs) =
     (if is_space c then rev cur # split_spaces [] (dropWhile is_space cs)
      else split_spaces (c # cur) cs)"
  by pat_completeness auto
termination
  by (relation "measure (\<lambda>(cur, s). length s)") (auto simp: length_dropWhile_le less_Suc_eq_le)

definition nonempty_only :: "string list \<Rightarrow> string list" where
  \<comment> \<open>\<open>.filter(Boolean)\<close> on an array of strings: the empty string is the only falsy one.\<close>
  "nonempty_only ws = filter (\<lambda>w. w \<noteq> []) ws"

section \<open>Numbers, faults and sorting\<close>

text \<open>
  The source never raises by itself, but two of its operations could fail if an index ran
  out of range: \<open>dp[i][j]\<close> raises a \<open>TypeError\<close> when the row \<open>dp[i]\<close> is missing, and a
  missing cell reads as \<open>undefined\<close>, which turns the arithmetic on it into \<open>NaN\<close> (a write
  to a missing cell would grow the row). The model makes every access outside the table a
  fault, so a run of the model that ends in \<open>Inr\<close> is a run of the source in which every
  access was inside the table.
\<close>

datatype fault = TypeError | MissingCell

type_synonym table = "nat list list"

definition get_cell :: "table \<Rightarrow> nat \<Rightarrow> nat \<Rightarrow> fault + nat" where
  \<comment> \<open>reading \<open>dp[i][j]\<close>\<close>
  "get_cell dp i j =
     (if length dp \<le> i then Inl TypeError
      else if length (dp ! i) \<le> j then Inl MissingCell
      else Inr (dp ! i ! j))"

definition set_cell :: "table \<Rightarrow> nat \<Rightarrow> nat \<Rightarrow> nat \<Rightarrow> fault + table" where
  \<comment> \<open>\<open>dp[i][j] = v\<close>; the rows are separate arrays, so only row \<open>i\<close> changes.\<close>
  "set_cell dp i j v =
     (if length dp \<le> i then Inl TypeError
      else if length (dp ! i) \<le> j then Inl MissingCell
      else Inr (dp[i := (dp ! i)[j := v]]))"

fun for_each :: "nat list \<Rightarrow> (nat \<Rightarrow> 's \<Rightarrow> fault + 's) \<Rightarrow> 's \<Rightarrow> fault + 's" where
  \<comment> \<open>A counting \<open>for\<close> loop over the listed values: the body updates the state, and the
      first fault ends the loop.\<close>
  "for_each [] body s = Inr s"
| "for_each (k # ks) body s =
     (case body k s of Inl e \<Rightarrow> Inl e | Inr s' \<Rightarrow> for_each ks body s')"

definition char_at :: "string \<Rightarrow> nat \<Rightarrow> char option" where
  \<comment> \<open>\<open>s[k]\<close>, which is \<open>undefined\<close> (here \<open>None\<close>) past the end of the string.\<close>
  "char_at s k = (if k < length s then Some (s ! k) else None)"

text \<open>
  A JavaScript number is modelled by the rational it stands for, with the two special
  values a division can produce. The constants \<open>0.25\<close>, \<open>0.15\<close> and \<open>0.35\<close> are the
  rationals \<open>1/4\<close>, \<open>3/20\<close> and \<open>7/20\<close>; the rounding of binary floating point is not
  modelled.
\<close>

datatype jsnum = Num rat | PosInfinity | NaN

definition js_div :: "nat \<Rightarrow> nat \<Rightarrow> jsnum" where
  \<comment> \<open>\<open>h / m\<close> for two counts: \<open>0 / 0\<close> is \<open>NaN\<close>, and a positive count over \<open>0\<close> is
      \<open>Infinity\<close>.\<close>
  "js_div h m = (if m = 0 then (if h = 0 then NaN else PosInfinity) else Num (of_nat h / of_nat m))"

definition js_add :: "jsnum \<Rightarrow> rat \<Rightarrow> jsnum" where
  \<comment> \<open>\<open>x + b\<close> for a finite \<open>b\<close>\<close>
  "js_add x b = (case x of Num r \<Rightarrow> Num (r + b) | PosInfinity \<Rightarrow> PosInfinity | NaN \<Rightarrow> NaN)"

definition js_ge :: "jsnum \<Rightarrow> rat \<Rightarrow> bool" where
  \<comment> \<open>\<open>x >= t\<close> for a finite \<open>t\<close>; every comparison with \<open>NaN\<close> is false.\<close>
  "js_ge x t = (case x of Num r \<Rightarrow> t \<le> r | PosInfinity \<Rightarrow> True | NaN \<Rightarrow> False)"

fun js_sub_sign :: "jsnum \<Rightarrow> jsnum \<Rightarrow> int" where
  \<comment> \<open>The sign of \<open>x - y\<close> as \<open>Array.prototype.sort\<close> reads a comparator's result:
      a \<open>NaN\<close> difference counts as \<open>0\<close>.\<close>
  "js_sub_sign (Num x) (Num y) = (if y < x then 1 else if x < y then - 1 else 0)"
| "js_sub_sign PosInfinity (Num y) = 1"
| "js_sub_sign (Num x) PosInfinity = - 1"
| "js_sub_sign x y = 0"

text \<open>
  \<open>Array.prototype.sort\<close> is stable, and for a consistent comparator its result is the
  one sorted arrangement that keeps equal elements in their order. Insertion from the right
  computes that arrangement: an element goes before the first element of the sorted rest
  that it does not come after.
\<close>

fun insert_sorted :: "('a \<Rightarrow> 'a \<Rightarrow> int) \<Rightarrow> 'a \<Rightarrow> 'a list \<Rightarrow> 'a list" where
  "insert_sorted cmp x [] = [x]"
| "insert_sorted cmp x (y # ys) =
     (if cmp x y \<le> 0 then x # y # ys else y # insert_sorted cmp x ys)"

definition js_sort :: "('a \<Rightarrow> 'a \<Rightarrow> int) \<Rightarrow> 'a list \<Rightarrow> 'a list" where
  "js_sort cmp xs = foldr (insert_sorted cmp) xs []"

section \<open>Edit distance: \<open>levenshtein\<close>\<close>

definition cell_step :: "string \<Rightarrow> string \<Rightarrow> nat \<Rightarrow> nat \<Rightarrow> table \<Rightarrow> fault + table" where
  \<comment> \<open>The body of the inner loop:
      \<open>cost = a[i - 1] === b[j - 1] ? 0 : 1\<close> and
      \<open>dp[i][j] = Math.min(dp[i - 1][j] + 1, dp[i][j - 1] + 1, dp[i - 1][j - 1] + cost)\<close>.\<close>
  "cell_step a b i j dp =
     (let cost = (if char_at a (i - 1) = char_at b (j - 1) then 0 else 1)
      in case get_cell dp (i - 1) j of Inl e \<Rightarrow> Inl e | Inr up \<Rightarrow>
         (case get_cell dp i (j - 1) of Inl e \<Rightarrow> Inl e | Inr left \<Rightarrow>
         (case get_cell dp (i - 1) (j - 1) of Inl e \<Rightarrow> Inl e | Inr diag \<Rightarrow>
            set_cell dp i j (min (min (up + 1) (left + 1)) (diag + cost)))))"

definition levenshtein :: "string \<Rightarrow> string \<Rightarrow> fault + nat" where
  \<comment> \<open>Both arguments are normalized; an empty one ends the function at once with
      \<open>Math.max(a.length, b.length)\<close>. Otherwise a table of \<open>m + 1\<close> rows of \<open>n + 1\<close>
      zeros is made, its first column and first row are set, the two nested loops fill it,
      and \<open>dp[m][n]\<close> is returned.\<close>
  "levenshtein a0 b0 =
     (let a = normalize_text a0; b = normalize_text b0
      in if a = [] \<or> b = [] then Inr (max (length a) (length b))
         else
           let m = length a; n = length b;
               dp = replicate (m + 1) (replicate (n + 1) 0)
           in case for_each [0..<m + 1] (\<lambda>i dp. set_cell dp i 0 i) dp of Inl e \<Rightarrow> Inl e | Inr dp \<Rightarrow>
              (case for_each [0..<n + 1] (\<lambda>j dp. set_cell dp 0 j j) dp of Inl e \<Rightarrow> Inl e | Inr dp \<Rightarrow>
              (case for_each [1..<m + 1]
                      (\<lambda>i dp. for_each [1..<n + 1] (\<lambda>j dp. cell_step a b i j dp) dp) dp
               of Inl e \<Rightarrow> Inl e | Inr dp \<Rightarrow> get_cell dp m n)))"

section \<open>Token overlap: \<open>overlapScore\<close>\<close>

definition overlapScore :: "string \<Rightarrow> string \<Rightarrow> jsnum" where
  \<comment> \<open>\<open>qWords\<close> and \<open>hWords\<close> are \<open>normalize(..).split(" ").filter(Boolean)\<close>; the loop
      counts the query words \<open>w\<close> with \<open>hWords.some(hw => hw.includes(w) || w.includes(hw))\<close>.\<close>
  "overlapScore q hay =
     (let qWords = nonempty_only (split_on (CHR '' '') [] (normalize_text q));
          hWords = nonempty_only (split_on (CHR '' '') [] (normalize_text hay))
      in if qWords = [] \<or> hWords = [] then Num 0
         else
           let hits = fold (\<lambda>w hits.
                   if list_ex (\<lambda>hw. str_includes hw w \<or> str_includes w hw) hWords
                   then hits + 1 else hits) qWords 0
           in js_div hits (max (length qWords) (length hWords)))"

section \<open>Ranking: \<open>searchIndex\<close>\<close>

text \<open>
  An entry of the index has a title, a URL, a snippet and keywords. The source reads the
  title and the URL as \<open>item.title || ""\<close> and the keywords as \<open>item.keywords || []\<close>, so an
  absent field is the empty string or the empty list. (The field of the keywords is
  \<open>keywords'\<close>, since \<open>keywords\<close> is reserved in Isabelle.)
\<close>

record IndexEntry =
  title :: string
  url :: string
  snippet :: string
  keywords' :: "string list"

record ScoredEntry = IndexEntry +
  score :: nat

definition with_score :: "IndexEntry \<Rightarrow> nat \<Rightarrow> ScoredEntry" where
  \<comment> \<open>\<open>{ ...item, __score: score }\<close>\<close>
  "with_score item s =
     \<lparr>title = title item, url = url item, snippet = snippet item,
      keywords' = keywords' item, score = s\<rparr>"

definition token_bonus :: "string \<Rightarrow> IndexEntry \<Rightarrow> nat" where
  \<comment> \<open>The "partial token matches" of the source: \<open>qTokens\<close> is
      \<open>normalize(query).split(/\s+/).filter(Boolean)\<close>, \<open>hay\<close> is the title and the keywords
      joined by spaces and lower-cased, and \<open>Math.min(2, tokenHits)\<close> is added to the score
      when there is a token at all.\<close>
  "token_bonus query item =
     (let qTokens = nonempty_only (split_spaces [] (normalize_text query))
      in if qTokens \<noteq> [] then
           let hay = toLowerCase (join '' '' (title item # keywords' item));
               tokenHits = length (filter (\<lambda>t. str_includes hay t) qTokens)
           in min 2 tokenHits
         else 0)"

definition entry_score :: "string \<Rightarrow> IndexEntry \<Rightarrow> nat" where
  \<comment> \<open>The score the callback of \<open>index.map\<close> computes for one item: \<open>+4\<close> for the title,
      \<open>+3\<close> for some keyword, \<open>+1\<close> for the URL, each lower-cased and containing the
      lower-cased query, and the token bonus.\<close>
  "entry_score query item =
     (let q = toLowerCase query;
          title_l = toLowerCase (title item);
          url_l = toLowerCase (url item);
          keywords_l = map toLowerCase (keywords' item);
          s0 = 0;
          s1 = (if str_includes title_l q then s0 + 4 else s0);
          s2 = (if list_ex (\<lambda>k. str_includes k q) keywords_l then s1 + 3 else s1);
          s3 = (if str_includes url_l q then s2 + 1 else s2)
      in s3 + token_bonus query item)"

definition rank_compare :: "(string \<Rightarrow> string \<Rightarrow> int) \<Rightarrow> ScoredEntry \<Rightarrow> ScoredEntry \<Rightarrow> int" where
  \<comment> \<open>\<open>b.__score - a.__score || a.title.localeCompare(b.title)\<close>. The collation of the
      host, \<open>localeCompare\<close>, is a parameter of the model.\<close>
  "rank_compare localeCompare a b =
     (if int (score b) - int (score a) \<noteq> 0 then int (score b) - int (score a)
      else localeCompare (title a) (title b))"

definition searchIndex :: "(string \<Rightarrow> string \<Rightarrow> int) \<Rightarrow> IndexEntry list \<Rightarrow> string \<Rightarrow> ScoredEntry list" where
  \<comment> \<open>\<open>index.map(..).filter(x => x.__score > 0).sort(..)\<close>\<close>
  "searchIndex localeCompare index query =
     js_sort (rank_compare localeCompare)
       (filter (\<lambda>x. score x > 0)
         (map (\<lambda>item. with_score item (entry_score query item)) index))"

section \<open>Suggestions: \<open>getDidYouMeanSuggestions\<close>\<close>

fun map_fault :: "('a \<Rightarrow> fault + 'b) \<Rightarrow> 'a list \<Rightarrow> fault + 'b list" where
  \<comment> \<open>\<open>xs.map(f)\<close> for an \<open>f\<close> that can fail: the first fault ends the map.\<close>
  "map_fault f [] = Inr []"
| "map_fault f (x # xs) =
     (case f x of Inl e \<Rightarrow> Inl e
      | Inr y \<Rightarrow> (case map_fault f xs of Inl e \<Rightarrow> Inl e | Inr ys \<Rightarrow> Inr (y # ys)))"

definition suggestion_score :: "string \<Rightarrow> IndexEntry \<Rightarrow> fault + (IndexEntry \<times> jsnum)" where
  \<comment> \<open>The callback of the first \<open>map\<close>: the pair \<open>{ item, score }\<close> with
      \<open>score = overlap + typoBonus\<close>, for the normalized query \<open>q\<close>.\<close>
  "suggestion_score q item =
     (let title_s = title item;
          keywords_s = join '' '' (keywords' item);
          hay = trim (title_s @ '' '' @ keywords_s);
          overlap = overlapScore q hay
      in case levenshtein q title_s of Inl e \<Rightarrow> Inl e
         | Inr distance \<Rightarrow>
             let typoBonus = (if distance \<le> 2 then 1 / 4 else if distance \<le> 3 then 3 / 20 else 0)
             in Inr (item, js_add overlap typoBonus))"

definition getDidYouMeanSuggestions :: "IndexEntry list \<Rightarrow> string \<Rightarrow> nat option \<Rightarrow> fault + IndexEntry list" where
  \<comment> \<open>The limit is a count; \<open>None\<close> is the omitted argument, for which the default \<open>3\<close>
      stands. \<open>.filter(x => x.score >= 0.35).sort((a, b) => b.score - a.score)
      .slice(0, limit).map(x => x.item)\<close>\<close>
  "getDidYouMeanSuggestions index query limit_arg =
     (let limit = (case limit_arg of None \<Rightarrow> 3 | Some l \<Rightarrow> l);
          q = normalize_text query
      in if length q < 2 then Inr []
         else case map_fault (suggestion_score q) index of Inl e \<Rightarrow> Inl e
           | Inr scored \<Rightarrow>
               Inr (map fst (take limit
                 (js_sort (\<lambda>a b. js_sub_sign (snd b) (snd a))
                   (filter (\<lambda>x. js_ge (snd x) (7 / 20)) scored)))))"

section \<open>Notions of the specification\<close>

fun clean :: "string \<Rightarrow> bool" where
  \<comment> \<open>Normalized text: letters a-z, digits and single spaces only.\<close>
  "clean [] = True"
| "clean [c] = (is_lower_alnum c \<or> c = CHR '' '')"
| "clean (c # d # cs) =
     ((is_lower_alnum c \<or> c = CHR '' '') \<and> \<not> (c = CHR '' '' \<and> d = CHR '' '') \<and> clean (d # cs))"

function tokens :: "string \<Rightarrow> string list" where
  \<comment> \<open>The tokens of a text: its maximal runs of characters that are not white space.\<close>
  "tokens [] = []"
| "tokens (c # cs) =
     (if is_space c then tokens cs
      else (c # takeWhile (\<lambda>x. \<not> is_space x) cs) # tokens (dropWhile (\<lambda>x. \<not> is_space x) cs))"
  by pat_completeness auto
termination
  by (relation "measure length") (auto simp: length_dropWhile_le less_Suc_eq_le)

definition token_hit :: "string list \<Rightarrow> string \<Rightarrow> bool" where
  \<comment> \<open>A query token hits when it is a substring of some haystack token or some haystack
      token is a substring of it.\<close>
  "token_hit hay_tokens w = (\<exists>hw \<in> set hay_tokens. sublist w hw \<or> sublist hw w)"

definition overlap_ratio :: "string \<Rightarrow> string \<Rightarrow> rat" where
  \<comment> \<open>Hits over the larger number of tokens, and \<open>0\<close> when a side has no token.\<close>
  "overlap_ratio query haystack =
     (let qs = tokens (normalize_text query); hs = tokens (normalize_text haystack)
      in if qs = [] \<or> hs = [] then 0
         else of_nat (length (filter (token_hit hs) qs)) / of_nat (max (length qs) (length hs)))"

fun lev :: "string \<Rightarrow> string \<Rightarrow> nat \<Rightarrow> nat \<Rightarrow> nat" where
  \<comment> \<open>The recurrence of the table: \<open>lev a b i j\<close> is what \<open>dp[i][j]\<close> has to hold.\<close>
  "lev a b 0 j = j"
| "lev a b (Suc i) 0 = Suc i"
| "lev a b (Suc i) (Suc j) =
     min (min (lev a b i (Suc j) + 1) (lev a b (Suc i) j + 1))
         (lev a b i j + (if a ! i = b ! j then 0 else 1))"

fun edit_distance :: "'a list \<Rightarrow> 'a list \<Rightarrow> nat" where
  \<comment> \<open>The Levenshtein distance by its textbook recursion.\<close>
  "edit_distance [] ys = length ys"
| "edit_distance (x # xs) [] = Suc (length xs)"
| "edit_distance (x # xs) (y # ys) =
     min (min (edit_distance xs (y # ys) + 1) (edit_distance (x # xs) ys + 1))
         (edit_distance xs ys + (if x = y then 0 else 1))"

inductive edits :: "nat \<Rightarrow> 'a list \<Rightarrow> 'a list \<Rightarrow> bool" where
  \<comment> \<open>\<open>edits k xs ys\<close>: \<open>xs\<close> becomes \<open>ys\<close> by \<open>k\<close> operations, each the substitution, the
      deletion or the insertion of one character.\<close>
  edits_done: "edits 0 [] []"
| edits_keep: "edits k xs ys \<Longrightarrow> edits k (c # xs) (c # ys)"
| edits_subst: "edits k xs ys \<Longrightarrow> edits (Suc k) (c # xs) (d # ys)"
| edits_delete: "edits k xs ys \<Longrightarrow> edits (Suc k) (c # xs) ys"
| edits_insert: "edits k xs ys \<Longrightarrow> edits (Suc k) xs (d # ys)"

definition typo_bonus :: "nat \<Rightarrow> rat" where
  "typo_bonus d = (if d \<le> 2 then 1 / 4 else if d \<le> 3 then 3 / 20 else 0)"

definition combined_score :: "string \<Rightarrow> IndexEntry \<Rightarrow> rat" where
  \<comment> \<open>The overlap of the query with the title and the keywords, plus the typo bonus for
      the distance between the query and the title.\<close>
  "combined_score query item =
     overlap_ratio query (title item @ '' '' @ join '' '' (keywords' item))
       + typo_bonus (edit_distance (normalize_text query) (normalize_text (title item)))"



definition rank_before :: "(string \<Rightarrow> string \<Rightarrow> int) \<Rightarrow> ScoredEntry \<Rightarrow> ScoredEntry \<Rightarrow> bool" where
  \<comment> \<open>The order of a ranking: the higher score first, and for equal scores the title that
      the collation does not put after the other.\<close>
  "rank_before localeCompare x y =
     (score y < score x \<or> (score x = score y \<and> localeCompare (title x) (title y) \<le> 0))"

definition distinct_token_bonus :: "string \<Rightarrow> IndexEntry \<Rightarrow> nat" where
  \<comment> \<open>The token bonus when a token that occurs twice in the query is counted once.\<close>
  "distinct_token_bonus query item =
     min 2 (length (remdups (filter
        (\<lambda>t. sublist t (toLowerCase (join '' '' (title item # keywords' item))))
        (tokens (normalize_text query)))))"

section \<open>Auxiliary notions\<close>

definition shape :: "table \<Rightarrow> nat \<Rightarrow> nat \<Rightarrow> bool" where
  \<comment> \<open>A table of \<open>m + 1\<close> rows of \<open>n + 1\<close> cells.\<close>
  "shape dp m n = (length dp = Suc m \<and> (\<forall>r \<in> set dp. length r = Suc n))"

definition upd :: "table \<Rightarrow> nat \<Rightarrow> nat \<Rightarrow> nat \<Rightarrow> table" where
  "upd dp i j v = dp[i := (dp ! i)[j := v]]"

definition rows_done :: "string \<Rightarrow> string \<Rightarrow> table \<Rightarrow> nat \<Rightarrow> nat \<Rightarrow> bool" where
  \<comment> \<open>The invariant of the nested loops: the first column is set, and the rows before row
      \<open>i\<close> and the cells of row \<open>i\<close> before column \<open>j\<close> hold their final values.\<close>
  "rows_done a b dp i j =
     (shape dp (length a) (length b) \<and>
      (\<forall>i' \<le> length a. dp ! i' ! 0 = i') \<and>
      (\<forall>i' j'. i' \<le> length a \<and> j' \<le> length b \<and> (i' < i \<or> (i' = i \<and> j' < j))
          \<longrightarrow> dp ! i' ! j' = lev a b i' j'))"

fun compare_units :: "nat list \<Rightarrow> nat list \<Rightarrow> int" where
  "compare_units [] [] = 0"
| "compare_units [] (y # ys) = - 1"
| "compare_units (x # xs) [] = 1"
| "compare_units (x # xs) (y # ys) =
     (if x < y then - 1 else if y < x then 1 else compare_units xs ys)"

definition codeUnitCompare :: "string \<Rightarrow> string \<Rightarrow> int" where
  \<comment> \<open>A collation to run examples with: the order of the code units.\<close>
  "codeUnitCompare a b = compare_units (map of_char a) (map of_char b)"

definition lvt_entry :: IndexEntry where
  "lvt_entry = \<lparr>title = ''Luxury Vinyl Tile (LVT)'', url = ''/materials/lvt/'', snippet = '''',
      keywords' = [''lvt'', ''vinyl'', ''wear layer'']\<rparr>"

definition laminate_entry :: IndexEntry where
  "laminate_entry = \<lparr>title = ''Laminate Flooring'', url = ''/materials/laminate/'', snippet = '''',
      keywords' = [''laminate'', ''hdf core'']\<rparr>"

definition example_index :: "IndexEntry list" where
  "example_index = [lvt_entry, laminate_entry]"

definition vinyl_entry :: IndexEntry where
  "vinyl_entry = \<lparr>title = ''Vinyl'', url = ''/materials/vinyl/'', snippet = '''', keywords' = []\<rparr>"

definition plank_entry :: IndexEntry where
  "plank_entry = \<lparr>title = ''Vinyl Plank'', url = ''/materials/vinyl-plank/'', snippet = '''',
     keywords' = [''vinyl plank'', ''vinyl'']\<rparr>"

definition vinyl_index :: "IndexEntry list" where
  "vinyl_index = [vinyl_entry, plank_entry]"

section \<open>Normal form of \<open>normalize\<close>\<close>

lemma space_is_space: "is_space (CHR '' '')"
  by (simp add: is_space_def)

lemma alnum_not_space: "is_lower_alnum c \<Longrightarrow> \<not> is_space c"
  by (auto simp: is_lower_alnum_def is_space_def)

lemma alnum_not_blank: "is_lower_alnum c \<Longrightarrow> c \<noteq> CHR '' ''"
  by (auto simp: is_lower_alnum_def)

lemma toLowerChar_fixed: "is_lower_alnum c \<or> c = CHR '' '' \<Longrightarrow> toLowerChar c = c"
  by (auto simp: is_lower_alnum_def toLowerChar_def)

lemma clean_chars: "clean s \<Longrightarrow> c \<in> set s \<Longrightarrow> is_lower_alnum c \<or> c = CHR '' ''"
  by (induction s rule: clean.induct) auto

lemma clean_tail: "clean (c # cs) \<Longrightarrow> clean cs"
  by (cases cs) auto

lemma toLowerCase_clean: "clean s \<Longrightarrow> toLowerCase s = s"
  unfolding toLowerCase_def
  by (rule map_idI) (auto dest: clean_chars simp: toLowerChar_fixed)

lemma replace_non_alnum_clean: "clean s \<Longrightarrow> replace_non_alnum s = s"
  unfolding replace_non_alnum_def
  by (rule map_idI) (auto dest: clean_chars simp: space_is_space)

lemma collapse_spaces_clean: "clean s \<Longrightarrow> collapse_spaces s = s"
proof (induction s rule: clean.induct)
  case 1
  show ?case by simp
next
  case (2 c)
  then show ?case by (auto dest: alnum_not_space)
next
  case (3 c d cs)
  from "3.prems" have tl: "clean (d # cs)" and nn: "\<not> (c = CHR '' '' \<and> d = CHR '' '')"
    and cc: "is_lower_alnum c \<or> c = CHR '' ''" and dd: "is_lower_alnum d \<or> d = CHR '' ''"
    by (auto dest: clean_chars)
  have ih: "collapse_spaces (d # cs) = d # cs"
    using "3.IH" tl by simp
  show ?case
  proof (cases "is_space c")
    case True
    with cc have "c = CHR '' ''" by (auto dest: alnum_not_space)
    with nn dd have "\<not> is_space d" by (auto dest: alnum_not_space)
    with True \<open>c = CHR '' ''\<close> ih show ?thesis by simp
  next
    case False
    with ih show ?thesis by simp
  qed
qed

lemma clean_dropWhile: "clean s \<Longrightarrow> clean (dropWhile is_space s)"
  by (induction s) (auto dest: clean_tail)

lemma clean_rev: "clean s \<Longrightarrow> clean (rev s)"
proof (induction s rule: clean.induct)
  case 1
  show ?case by simp
next
  case (2 c)
  then show ?case by simp
next
  case (3 c d cs)
  have step: "clean (xs @ [d]) \<Longrightarrow> (is_lower_alnum c \<or> c = CHR '' '') \<Longrightarrow>
      \<not> (c = CHR '' '' \<and> d = CHR '' '') \<Longrightarrow> clean ((xs @ [d]) @ [c])" for xs
    by (induction xs rule: clean.induct) auto
  from 3 show ?case by (simp del: append_assoc add: step)
qed

lemma clean_trim: "clean s \<Longrightarrow> clean (trim s)"
  by (simp add: trim_def clean_rev clean_dropWhile)

lemma clean_collapse_spaces:
  "\<forall>c \<in> set s. is_lower_alnum c \<or> is_space c \<Longrightarrow> clean (collapse_spaces s)"
proof (induction s rule: collapse_spaces.induct)
  case 1
  show ?case by simp
next
  case (2 c cs)
  show ?case
  proof (cases "is_space c")
    case True
    let ?r = "dropWhile is_space cs"
    have "\<forall>x \<in> set ?r. is_lower_alnum x \<or> is_space x"
      using "2.prems" by (auto dest: set_dropWhileD)
    with "2.IH"(1) True have ih: "clean (collapse_spaces ?r)" by simp
    have unfold: "collapse_spaces (c # cs) = CHR '' '' # collapse_spaces ?r"
      using True by simp
    show ?thesis
    proof (cases ?r)
      case Nil
      show ?thesis unfolding unfold Nil by simp
    next
      case (Cons d ds)
      then have "\<not> is_space d" by (metis hd_dropWhile list.distinct(1) list.sel(1))
      with ih show ?thesis unfolding unfold Cons by (auto simp: space_is_space)
    qed
  next
    case False
    with "2.prems" have c: "is_lower_alnum c" by simp
    from "2.IH"(2) False "2.prems" have ih: "clean (collapse_spaces cs)" by simp
    from c ih show ?thesis using False
      by (cases "collapse_spaces cs") (auto dest: alnum_not_blank)
  qed
qed

lemma replace_non_alnum_chars: "\<forall>c \<in> set (replace_non_alnum s). is_lower_alnum c \<or> is_space c"
  by (auto simp: replace_non_alnum_def space_is_space)

lemma trim_idem: "trim (trim s) = trim s"
proof -
  let ?d = "dropWhile is_space"
  have a: "?d (rev (?d (rev (?d s)))) = rev (?d (rev (?d s)))"
  proof (cases "?d s")
    case Nil
    show ?thesis unfolding Nil by simp
  next
    case (Cons d ds)
    then have nd: "\<not> is_space d" by (metis hd_dropWhile list.distinct(1) list.sel(1))
    have "\<exists>zs. rev (?d (rev (d # ds))) = d # zs"
      using nd by (auto simp: dropWhile_append) (metis rev_rev_ident)
    then obtain zs where "rev (?d (rev (d # ds))) = d # zs" ..
    with nd Cons show ?thesis by simp
  qed
  show ?thesis
    unfolding trim_def by (simp add: a)
qed

lemma normalize_text_clean: "clean (normalize_text x)"
  unfolding normalize_text_def
  by (intro clean_trim clean_collapse_spaces replace_non_alnum_chars)

lemma normalize_text_idem: "normalize_text (normalize_text x) = normalize_text x"
proof -
  let ?c = "collapse_spaces (replace_non_alnum (toLowerCase x))"
  have c: "clean (trim ?c)"
    using normalize_text_clean [of x] by (simp add: normalize_text_def)
  have "normalize_text (trim ?c) = trim (trim ?c)"
    unfolding normalize_text_def
    by (simp add: toLowerCase_clean [OF c] replace_non_alnum_clean [OF c] collapse_spaces_clean [OF c])
  then show ?thesis
    by (simp add: normalize_text_def trim_idem)
qed

section \<open>The dynamic-programming table\<close>

lemma get_cell_ok: "shape dp m n \<Longrightarrow> i \<le> m \<Longrightarrow> j \<le> n \<Longrightarrow> get_cell dp i j = Inr (dp ! i ! j)"
  by (simp add: get_cell_def shape_def)

lemma set_cell_ok: "shape dp m n \<Longrightarrow> i \<le> m \<Longrightarrow> j \<le> n \<Longrightarrow> set_cell dp i j v = Inr (upd dp i j v)"
  by (simp add: set_cell_def shape_def upd_def)

lemma shape_upd: "shape dp m n \<Longrightarrow> i \<le> m \<Longrightarrow> shape (upd dp i j v) m n"
  by (auto simp: shape_def upd_def dest!: set_update_subset_insert [THEN subsetD])

lemma cell_upd:
  "shape dp m n \<Longrightarrow> i \<le> m \<Longrightarrow> j \<le> n \<Longrightarrow> i' \<le> m \<Longrightarrow> j' \<le> n \<Longrightarrow>
     upd dp i j v ! i' ! j' = (if i' = i \<and> j' = j then v else dp ! i' ! j')"
  by (auto simp: shape_def upd_def nth_list_update)

lemma for_each_range:
  assumes "lo \<le> hi" and "P lo s"
    and "\<And>k t. lo \<le> k \<Longrightarrow> k < hi \<Longrightarrow> P k t \<Longrightarrow> \<exists>t'. body k t = Inr t' \<and> P (Suc k) t'"
  shows "\<exists>s'. for_each [lo..<hi] body s = Inr s' \<and> P hi s'"
  using assms
proof (induction "hi - lo" arbitrary: lo s)
  case 0
  then show ?case by simp
next
  case (Suc d)
  then have lt: "lo < hi" by simp
  from Suc.prems(3) [of lo s] lt Suc.prems(2)
  obtain t where t: "body lo s = Inr t" "P (Suc lo) t" by auto
  have "\<exists>s'. for_each [Suc lo..<hi] body t = Inr s' \<and> P hi s'"
  proof (rule Suc.hyps(1))
    show "d = hi - Suc lo" using Suc.hyps(2) by simp
    show "Suc lo \<le> hi" using lt by simp
    show "P (Suc lo) t" by (rule t(2))
    show "\<exists>t'. body k u = Inr t' \<and> P (Suc k) t'" if "Suc lo \<le> k" "k < hi" "P k u" for k u
      using Suc.prems(3) [of k u] that by simp
  qed
  with t(1) lt show ?case by (simp add: upt_conv_Cons)
qed

lemma lev_col0: "lev a b i 0 = i"
  by (cases i) simp_all

lemma rows_done_cell:
  "rows_done a b dp i j \<Longrightarrow> i' \<le> length a \<Longrightarrow> j' \<le> length b \<Longrightarrow>
     i' < i \<or> (i' = i \<and> j' < j) \<Longrightarrow> dp ! i' ! j' = lev a b i' j'"
  by (simp add: rows_done_def)

lemma rows_done_shape: "rows_done a b dp i j \<Longrightarrow> shape dp (length a) (length b)"
  by (simp add: rows_done_def)

lemma cell_step_ok:
  assumes inv: "rows_done a b dp i j"
    and i: "1 \<le> i" "i \<le> length a" and j: "1 \<le> j" "j \<le> length b"
  shows "cell_step a b i j dp = Inr (upd dp i j (lev a b i j))"
proof -
  obtain i0 j0 where ij: "i = Suc i0" "j = Suc j0"
    using i j by (cases i; cases j) auto
  note sh = rows_done_shape [OF inv]
  have up: "get_cell dp (i - 1) j = Inr (lev a b i0 j)"
    using get_cell_ok [OF sh, of i0 j] rows_done_cell [OF inv, of i0 j] i j ij by simp
  have left: "get_cell dp i (j - 1) = Inr (lev a b i j0)"
    using get_cell_ok [OF sh, of i j0] rows_done_cell [OF inv, of i j0] i j ij by simp
  have diag: "get_cell dp (i - 1) (j - 1) = Inr (lev a b i0 j0)"
    using get_cell_ok [OF sh, of i0 j0] rows_done_cell [OF inv, of i0 j0] i j ij by simp
  have cost: "(char_at a (i - 1) = char_at b (j - 1)) = (a ! i0 = b ! j0)"
    using i j ij by (simp add: char_at_def)
  show ?thesis
    unfolding cell_step_def up left diag cost
    using set_cell_ok [OF sh i(2) j(2)] by (simp add: ij)
qed

lemma rows_done_step:
  assumes inv: "rows_done a b dp i j"
    and i: "1 \<le> i" "i \<le> length a" and j: "1 \<le> j" "j \<le> length b"
  shows "rows_done a b (upd dp i j (lev a b i j)) i (Suc j)"
proof -
  note sh = rows_done_shape [OF inv]
  let ?dp = "upd dp i j (lev a b i j)"
  have cell: "?dp ! i' ! j' = (if i' = i \<and> j' = j then lev a b i j else dp ! i' ! j')"
    if "i' \<le> length a" "j' \<le> length b" for i' j'
    using cell_upd [OF sh i(2) j(2) that] .
  have "shape ?dp (length a) (length b)"
    using shape_upd [OF sh i(2)] .
  moreover have "\<forall>i' \<le> length a. ?dp ! i' ! 0 = i'"
    using inv j(1) by (simp add: cell rows_done_def)
  moreover have "?dp ! i' ! j' = lev a b i' j'"
    if "i' \<le> length a" "j' \<le> length b" "i' < i \<or> (i' = i \<and> j' < Suc j)" for i' j'
  proof (cases "i' = i \<and> j' = j")
    case True
    then show ?thesis using that by (simp add: cell)
  next
    case False
    then have "i' < i \<or> (i' = i \<and> j' < j)" using that(3) by auto
    then show ?thesis
      using False that rows_done_cell [OF inv that(1,2)] by (simp add: cell)
  qed
  ultimately show ?thesis by (simp add: rows_done_def)
qed

lemma inner_loop:
  assumes inv: "rows_done a b dp i 0" and i: "1 \<le> i" "i \<le> length a"
  shows "\<exists>dp'. for_each [1..<length b + 1] (\<lambda>j dp. cell_step a b i j dp) dp = Inr dp'
            \<and> rows_done a b dp' (Suc i) 0"
proof -
  have start: "rows_done a b dp i 1"
    using inv i unfolding rows_done_def by (auto simp: lev_col0)
  have "\<exists>dp'. for_each [1..<length b + 1] (\<lambda>j dp. cell_step a b i j dp) dp = Inr dp'
            \<and> rows_done a b dp' i (length b + 1)"
  proof (rule for_each_range [where P = "\<lambda>j t. rows_done a b t i j"])
    show "1 \<le> length b + 1" by simp
    show "rows_done a b dp i 1" by (rule start)
    show "\<exists>t'. cell_step a b i k t = Inr t' \<and> rows_done a b t' i (Suc k)"
      if "1 \<le> k" "k < length b + 1" "rows_done a b t i k" for k t
      using cell_step_ok [OF that(3) i that(1)] rows_done_step [OF that(3) i that(1)] that(2)
      by simp
  qed
  then obtain dp' where dp': "for_each [1..<length b + 1] (\<lambda>j dp. cell_step a b i j dp) dp = Inr dp'"
      "rows_done a b dp' i (length b + 1)" by blast
  have "dp' ! i' ! j' = lev a b i' j'"
    if "i' \<le> length a" "j' \<le> length b" "i' < Suc i" for i' j'
  proof (rule rows_done_cell [OF dp'(2) that(1,2)])
    show "i' < i \<or> i' = i \<and> j' < length b + 1" using that by auto
  qed
  with dp'(2) have "rows_done a b dp' (Suc i) 0"
    unfolding rows_done_def by blast
  with dp'(1) show ?thesis by blast
qed

lemma outer_loop:
  assumes inv: "rows_done a b dp 1 0"
  shows "\<exists>dp'. for_each [1..<length a + 1]
                  (\<lambda>i dp. for_each [1..<length b + 1] (\<lambda>j dp. cell_step a b i j dp) dp) dp = Inr dp'
            \<and> rows_done a b dp' (length a + 1) 0"
proof (rule for_each_range [where P = "\<lambda>i t. rows_done a b t i 0"])
  show "1 \<le> length a + 1" by simp
  show "rows_done a b dp 1 0" by (rule inv)
  show "\<exists>t'. for_each [1..<length b + 1] (\<lambda>j dp. cell_step a b k j dp) t = Inr t'
            \<and> rows_done a b t' (Suc k) 0"
    if "1 \<le> k" "k < length a + 1" "rows_done a b t k 0" for k t
    using inner_loop [OF that(3) that(1)] that(2) by simp
qed

lemma init_col:
  "\<exists>dp'. for_each [0..<m + 1] (\<lambda>i dp. set_cell dp i 0 i) (replicate (m + 1) (replicate (n + 1) 0)) = Inr dp'
      \<and> shape dp' m n \<and> (\<forall>i \<le> m. dp' ! i ! 0 = i)"
proof -
  let ?P = "\<lambda>k t. shape t m n \<and> (\<forall>i < k. t ! i ! 0 = i)"
  have "\<exists>dp'. for_each [0..<m + 1] (\<lambda>i dp. set_cell dp i 0 i)
            (replicate (m + 1) (replicate (n + 1) 0)) = Inr dp' \<and> ?P (m + 1) dp'"
  proof (rule for_each_range [where P = ?P])
    show "0 \<le> m + 1" by simp
    show "?P 0 (replicate (m + 1) (replicate (n + 1) 0))" by (simp add: shape_def)
    show "\<exists>t'. set_cell t k 0 k = Inr t' \<and> ?P (Suc k) t'" if "0 \<le> k" "k < m + 1" "?P k t" for k t
    proof -
      from that have sh: "shape t m n" and k: "k \<le> m" by simp_all
      have "?P (Suc k) (upd t k 0 k)"
        using that shape_upd [OF sh k] cell_upd [OF sh k, of 0 _ 0 k]
        by (auto simp: less_Suc_eq)
      with set_cell_ok [OF sh k, of 0 k] show ?thesis by simp
    qed
  qed
  then show ?thesis by (auto simp: less_Suc_eq_le)
qed

lemma init_row:
  assumes "shape dp m n" "\<forall>i \<le> m. dp ! i ! 0 = i"
  shows "\<exists>dp'. for_each [0..<n + 1] (\<lambda>j dp. set_cell dp 0 j j) dp = Inr dp'
      \<and> shape dp' m n \<and> (\<forall>i \<le> m. dp' ! i ! 0 = i) \<and> (\<forall>j \<le> n. dp' ! 0 ! j = j)"
proof -
  let ?P = "\<lambda>k t. shape t m n \<and> (\<forall>i \<le> m. t ! i ! 0 = i) \<and> (\<forall>j < k. j \<le> n \<longrightarrow> t ! 0 ! j = j)"
  have "\<exists>dp'. for_each [0..<n + 1] (\<lambda>j dp. set_cell dp 0 j j) dp = Inr dp' \<and> ?P (n + 1) dp'"
  proof (rule for_each_range [where P = ?P])
    show "0 \<le> n + 1" by simp
    show "?P 0 dp" using assms by simp
    show "\<exists>t'. set_cell t 0 k k = Inr t' \<and> ?P (Suc k) t'" if "0 \<le> k" "k < n + 1" "?P k t" for k t
    proof -
      from that have sh: "shape t m n" and k: "k \<le> n" by simp_all
      have c: "upd t 0 k k ! i' ! j' = (if i' = 0 \<and> j' = k then k else t ! i' ! j')"
        if "i' \<le> m" "j' \<le> n" for i' j'
        using cell_upd [OF sh _ k that, of 0 k] by simp
      have "?P (Suc k) (upd t 0 k k)"
        using that shape_upd [OF sh, of 0 k k] k
        by (auto simp: less_Suc_eq c)
      with set_cell_ok [OF sh _ k, of 0 k] show ?thesis by simp
    qed
  qed
  then show ?thesis by (auto simp: less_Suc_eq_le)
qed

lemma levenshtein_table:
  assumes "a \<noteq> []" "b \<noteq> []"
  shows "(let m = length a; n = length b;
               dp = replicate (m + 1) (replicate (n + 1) 0)
           in case for_each [0..<m + 1] (\<lambda>i dp. set_cell dp i 0 i) dp of Inl e \<Rightarrow> Inl e | Inr dp \<Rightarrow>
              (case for_each [0..<n + 1] (\<lambda>j dp. set_cell dp 0 j j) dp of Inl e \<Rightarrow> Inl e | Inr dp \<Rightarrow>
              (case for_each [1..<m + 1]
                      (\<lambda>i dp. for_each [1..<n + 1] (\<lambda>j dp. cell_step a b i j dp) dp) dp
               of Inl e \<Rightarrow> Inl e | Inr dp \<Rightarrow> get_cell dp m n))) = Inr (lev a b (length a) (length b))"
proof -
  let ?m = "length a" and ?n = "length b"
  obtain dp1 where dp1: "for_each [0..<?m + 1] (\<lambda>i dp. set_cell dp i 0 i)
        (replicate (?m + 1) (replicate (?n + 1) 0)) = Inr dp1"
      "shape dp1 ?m ?n" "\<forall>i \<le> ?m. dp1 ! i ! 0 = i"
    using init_col [of ?m ?n] by blast
  obtain dp2 where dp2: "for_each [0..<?n + 1] (\<lambda>j dp. set_cell dp 0 j j) dp1 = Inr dp2"
      "shape dp2 ?m ?n" "\<forall>i \<le> ?m. dp2 ! i ! 0 = i" "\<forall>j \<le> ?n. dp2 ! 0 ! j = j"
    using init_row [OF dp1(2,3)] by blast
  have "rows_done a b dp2 1 0"
    using dp2(2,3,4) by (simp add: rows_done_def)
  from outer_loop [OF this]
  obtain dp3 where dp3: "for_each [1..<?m + 1]
        (\<lambda>i dp. for_each [1..<?n + 1] (\<lambda>j dp. cell_step a b i j dp) dp) dp2 = Inr dp3"
      "rows_done a b dp3 (?m + 1) 0" by blast
  have "get_cell dp3 ?m ?n = Inr (lev a b ?m ?n)"
    using get_cell_ok [OF rows_done_shape [OF dp3(2)], of ?m ?n]
      rows_done_cell [OF dp3(2), of ?m ?n] by simp
  then show ?thesis
    unfolding Let_def dp1(1) dp2(1) dp3(1) sum.case .
qed

lemma levenshtein_lev:
  "levenshtein a0 b0 = Inr (lev (normalize_text a0) (normalize_text b0)
        (length (normalize_text a0)) (length (normalize_text b0)))"
proof (cases "normalize_text a0 = [] \<or> normalize_text b0 = []")
  case True
  then show ?thesis by (auto simp: levenshtein_def Let_def lev_col0)
next
  case False
  then show ?thesis
    using levenshtein_table [of "normalize_text a0" "normalize_text b0"]
    by (simp add: levenshtein_def Let_def)
qed

section \<open>Edit distance\<close>

lemma edit_distance_Nil_right: "edit_distance xs [] = length xs"
  by (cases xs) simp_all

lemma lev_edit_distance:
  "i \<le> length a \<Longrightarrow> j \<le> length b \<Longrightarrow>
     lev a b i j = edit_distance (rev (take i a)) (rev (take j b))"
proof (induction a b i j rule: lev.induct)
  case (1 a b j)
  then show ?case by simp
next
  case (2 a b i)
  then show ?case by (simp add: edit_distance_Nil_right)
next
  case (3 a b i j)
  then have i: "i < length a" and j: "j < length b" by simp_all
  have ta: "rev (take (Suc i) a) = a ! i # rev (take i a)"
    using i by (simp add: take_Suc_conv_app_nth)
  have tb: "rev (take (Suc j) b) = b ! j # rev (take j b)"
    using j by (simp add: take_Suc_conv_app_nth)
  from 3 i j show ?case
    by (simp add: ta tb del: take_Suc)
qed

lemma edits_insert_all: "edits (length ys) [] ys"
  by (induction ys) (auto intro: edits.intros)

lemma edits_delete_all: "edits (length xs) xs []"
  by (induction xs) (auto intro: edits.intros)

lemma edits_edit_distance: "edits (edit_distance xs ys) xs ys"
proof (induction xs ys rule: edit_distance.induct)
  case (1 ys)
  show ?case by (simp add: edits_insert_all)
next
  case (2 x xs)
  show ?case using edits_delete_all [of "x # xs"] by simp
next
  case (3 x xs y ys)
  let ?del = "edit_distance xs (y # ys) + 1" and ?ins = "edit_distance (x # xs) ys + 1"
    and ?sub = "edit_distance xs ys + (if x = y then 0 else 1)"
  have del: "edits ?del (x # xs) (y # ys)"
    using edits_delete [OF "3.IH"(1)] by simp
  have ins: "edits ?ins (x # xs) (y # ys)"
    using edits_insert [OF "3.IH"(2)] by simp
  have sub: "edits ?sub (x # xs) (y # ys)"
    using edits_keep [OF "3.IH"(3), of x] edits_subst [OF "3.IH"(3), of x y] by auto
  have "edit_distance (x # xs) (y # ys) \<in> {?del, ?ins, ?sub}"
    by (simp add: min_def)
  with del ins sub show ?case by auto
qed

lemma edit_distance_Cons_left: "edit_distance (c # xs) ys \<le> Suc (edit_distance xs ys)"
  by (cases ys) (simp_all add: edit_distance_Nil_right)

lemma edit_distance_Cons_right: "edit_distance xs (d # ys) \<le> Suc (edit_distance xs ys)"
  by (cases xs) simp_all

lemma edit_distance_Cons_both: "edit_distance (c # xs) (d # ys) \<le> Suc (edit_distance xs ys)"
  by (simp add: min_def)

lemma edit_distance_least: "edits k xs ys \<Longrightarrow> edit_distance xs ys \<le> k"
proof (induction rule: edits.induct)
  case edits_done
  show ?case by simp
next
  case (edits_keep k xs ys c)
  then show ?case by simp
next
  case (edits_subst k xs ys c d)
  then show ?case using edit_distance_Cons_both [of c xs d ys] by linarith
next
  case (edits_delete k xs ys c)
  then show ?case using edit_distance_Cons_left [of c xs ys] by linarith
next
  case (edits_insert k xs ys d)
  then show ?case using edit_distance_Cons_right [of xs d ys] by linarith
qed

lemma edits_snoc_keep: "edits k xs ys \<Longrightarrow> edits k (xs @ [c]) (ys @ [c])"
  by (induction rule: edits.induct) (auto intro: edits.intros)

lemma edits_snoc_subst: "edits k xs ys \<Longrightarrow> edits (Suc k) (xs @ [c]) (ys @ [d])"
  by (induction rule: edits.induct) (auto intro: edits.intros)

lemma edits_snoc_delete: "edits k xs ys \<Longrightarrow> edits (Suc k) (xs @ [c]) ys"
  by (induction rule: edits.induct) (auto intro: edits.intros)

lemma edits_snoc_insert: "edits k xs ys \<Longrightarrow> edits (Suc k) xs (ys @ [d])"
  by (induction rule: edits.induct) (auto intro: edits.intros)

lemma edits_rev: "edits k xs ys \<Longrightarrow> edits k (rev xs) (rev ys)"
  by (induction rule: edits.induct)
     (auto intro: edits_done edits_snoc_keep edits_snoc_subst edits_snoc_delete edits_snoc_insert)

lemma edit_distance_rev_le: "edit_distance (rev xs) (rev ys) \<le> edit_distance xs ys"
  by (rule edit_distance_least [OF edits_rev [OF edits_edit_distance]])

lemma edit_distance_rev: "edit_distance (rev xs) (rev ys) = edit_distance xs ys"
  using edit_distance_rev_le [of xs ys] edit_distance_rev_le [of "rev xs" "rev ys"] by simp

lemma edits_sym: "edits k xs ys \<Longrightarrow> edits k ys xs"
  by (induction rule: edits.induct) (auto intro: edits.intros)

lemma edit_distance_sym: "edit_distance xs ys = edit_distance ys xs"
  by (rule antisym; rule edit_distance_least [OF edits_sym [OF edits_edit_distance]])

lemma edit_distance_refl: "edit_distance xs xs = 0"
proof -
  have "edits 0 xs xs" by (induction xs) (auto intro: edits.intros)
  from edit_distance_least [OF this] show ?thesis by simp
qed

lemma levenshtein_edit_distance:
  "levenshtein a b = Inr (edit_distance (normalize_text a) (normalize_text b))"
  using lev_edit_distance [of "length (normalize_text a)" "normalize_text a"
      "length (normalize_text b)" "normalize_text b"]
  by (simp add: levenshtein_lev edit_distance_rev)

section \<open>Tokens and overlap\<close>

lemma tokens_dropWhile: "tokens (dropWhile is_space s) = tokens s"
  by (induction s) auto

lemma tokens_word:
  assumes "\<forall>x \<in> set w. \<not> is_space x" "w \<noteq> []" "r = [] \<or> is_space (hd r)"
  shows "tokens (w @ r) = w # tokens r"
proof -
  obtain c w' where w: "w = c # w'" using assms(2) by (cases w) auto
  have nsp: "\<And>x. x \<in> set w' \<Longrightarrow> \<not> is_space x" and c: "\<not> is_space c"
    using assms(1) w by auto
  have tk: "takeWhile (\<lambda>x. \<not> is_space x) r = []" and dr: "dropWhile (\<lambda>x. \<not> is_space x) r = r"
    using assms(3) by (cases r; auto)+
  show ?thesis
    using c by (simp add: w takeWhile_append2 [OF nsp] dropWhile_append2 [OF nsp] tk dr)
qed

lemma tokens_piece:
  assumes "\<forall>x \<in> set cur. \<not> is_space x" "r = [] \<or> is_space (hd r)"
  shows "tokens (rev cur @ r) = nonempty_only [rev cur] @ tokens r"
proof (cases "cur = []")
  case True
  then show ?thesis by (simp add: nonempty_only_def)
next
  case False
  then show ?thesis
    using tokens_word [of "rev cur" r] assms by (simp add: nonempty_only_def)
qed

lemma split_spaces_tokens:
  "\<forall>x \<in> set cur. \<not> is_space x \<Longrightarrow> nonempty_only (split_spaces cur s) = tokens (rev cur @ s)"
proof (induction cur s rule: split_spaces.induct)
  case (1 cur)
  then show ?case using tokens_piece [of cur "[]"] by simp
next
  case (2 cur c cs)
  show ?case
  proof (cases "is_space c")
    case True
    have "nonempty_only (split_spaces cur (c # cs))
        = nonempty_only [rev cur] @ nonempty_only (split_spaces [] (dropWhile is_space cs))"
      using True by (simp add: nonempty_only_def)
    also have "\<dots> = nonempty_only [rev cur] @ tokens cs"
      using "2.IH"(1) [OF True] by (simp add: tokens_dropWhile)
    also have "\<dots> = tokens (rev cur @ c # cs)"
      using tokens_piece [of cur "c # cs"] "2.prems" True by simp
    finally show ?thesis .
  next
    case False
    with "2.IH"(2) "2.prems" show ?thesis by simp
  qed
qed

lemma split_on_tokens:
  "\<forall>x \<in> set s. is_space x \<longrightarrow> x = CHR '' '' \<Longrightarrow> \<forall>x \<in> set cur. \<not> is_space x \<Longrightarrow>
     nonempty_only (split_on (CHR '' '') cur s) = tokens (rev cur @ s)"
proof (induction s arbitrary: cur)
  case Nil
  then show ?case using tokens_piece [of cur "[]"] by simp
next
  case (Cons c cs)
  show ?case
  proof (cases "c = CHR '' ''")
    case True
    have "nonempty_only (split_on (CHR '' '') cur (c # cs))
        = nonempty_only [rev cur] @ nonempty_only (split_on (CHR '' '') [] cs)"
      using True by (simp add: nonempty_only_def)
    also have "\<dots> = nonempty_only [rev cur] @ tokens cs"
      using Cons.IH [of "[]"] Cons.prems(1) by simp
    also have "\<dots> = tokens (rev cur @ c # cs)"
      using tokens_piece [of cur "c # cs"] Cons.prems(2) True by (simp add: space_is_space)
    finally show ?thesis .
  next
    case False
    with Cons.prems(1) have "\<not> is_space c" by auto
    with Cons.IH [of "c # cur"] Cons.prems False show ?thesis by simp
  qed
qed

lemma clean_only_blank: "clean s \<Longrightarrow> \<forall>x \<in> set s. is_space x \<longrightarrow> x = CHR '' ''"
  by (auto dest: clean_chars alnum_not_space)

lemma split_blank_normalized:
  "nonempty_only (split_on (CHR '' '') [] (normalize_text s)) = tokens (normalize_text s)"
  using split_on_tokens [OF clean_only_blank [OF normalize_text_clean], of "[]" s] by simp

lemma split_spaces_normalized:
  "nonempty_only (split_spaces [] (normalize_text s)) = tokens (normalize_text s)"
  using split_spaces_tokens [of "[]" "normalize_text s"] by simp

lemma fold_count:
  "fold (\<lambda>w hits. if P w then hits + 1 else hits) ws (n::nat) = n + length (filter P ws)"
  by (induction ws arbitrary: n) auto

lemma overlapScore_ratio: "overlapScore q hay = Num (overlap_ratio q hay)"
proof -
  let ?qs = "tokens (normalize_text q)" and ?hs = "tokens (normalize_text hay)"
  have hit: "(\<lambda>w. list_ex (\<lambda>hw. str_includes hw w \<or> str_includes w hw) ?hs) = token_hit ?hs"
    by (auto simp: token_hit_def list_ex_iff str_includes_def fun_eq_iff)
  show ?thesis
  proof (cases "?qs = [] \<or> ?hs = []")
    case True
    then show ?thesis
      by (auto simp: overlapScore_def overlap_ratio_def split_blank_normalized)
  next
    case False
    then have "max (length ?qs) (length ?hs) \<noteq> 0" by auto
    with False show ?thesis
      unfolding overlapScore_def overlap_ratio_def split_blank_normalized Let_def fold_count hit js_div_def
      by simp
  qed
qed

lemma overlap_ratio_bounds: "0 \<le> overlap_ratio q hay \<and> overlap_ratio q hay \<le> 1"
proof -
  let ?qs = "tokens (normalize_text q)" and ?hs = "tokens (normalize_text hay)"
  have "length (filter (token_hit ?hs) ?qs) \<le> max (length ?qs) (length ?hs)"
    using length_filter_le [of "token_hit ?hs" ?qs] by linarith
  then have "(of_nat (length (filter (token_hit ?hs) ?qs)) :: rat) \<le> of_nat (max (length ?qs) (length ?hs))"
    using of_nat_le_iff by blast
  moreover have "?qs \<noteq> [] \<Longrightarrow> (0::rat) < of_nat (max (length ?qs) (length ?hs))"
    by (cases ?qs) (auto simp: max_def)
  ultimately show ?thesis
    by (auto simp: overlap_ratio_def Let_def divide_le_eq_1 simp del: of_nat_max)
qed

section \<open>Sorting\<close>

lemma mset_insert_sorted: "mset (insert_sorted cmp x ys) = add_mset x (mset ys)"
  by (induction ys) auto

lemma mset_js_sort: "mset (js_sort cmp xs) = mset xs"
  unfolding js_sort_def by (induction xs) (auto simp: mset_insert_sorted)

lemma set_js_sort: "set (js_sort cmp xs) = set xs"
  using mset_js_sort [of cmp xs] by (metis set_mset_mset)

lemma sorted_insert_sorted:
  assumes total: "\<And>a b. cmp a b \<le> 0 \<or> cmp b a \<le> 0"
    and trans: "\<And>a b c. cmp a b \<le> 0 \<Longrightarrow> cmp b c \<le> 0 \<Longrightarrow> cmp a c \<le> 0"
  shows "sorted_wrt (\<lambda>a b. cmp a b \<le> 0) ys \<Longrightarrow> sorted_wrt (\<lambda>a b. cmp a b \<le> 0) (insert_sorted cmp x ys)"
proof (induction ys)
  case Nil
  show ?case by simp
next
  case (Cons y ys)
  show ?case
  proof (cases "cmp x y \<le> 0")
    case True
    with Cons.prems trans show ?thesis by auto
  next
    case False
    with total have yx: "cmp y x \<le> 0" by blast
    have "set (insert_sorted cmp x ys) = insert x (set ys)"
      using mset_insert_sorted [of cmp x ys] by (metis set_mset_mset set_mset_add_mset_insert)
    with False yx Cons show ?thesis by auto
  qed
qed

lemma sorted_js_sort:
  assumes "\<And>a b. cmp a b \<le> 0 \<or> cmp b a \<le> 0"
    and "\<And>a b c. cmp a b \<le> 0 \<Longrightarrow> cmp b c \<le> 0 \<Longrightarrow> cmp a c \<le> 0"
  shows "sorted_wrt (\<lambda>a b. cmp a b \<le> 0) (js_sort cmp xs)"
  unfolding js_sort_def
  by (induction xs) (auto intro: sorted_insert_sorted [OF assms])

lemma insert_sorted_keyed:
  assumes "\<And>x y. (cmp (g x) (g y) \<le> 0) = (k x \<le> k y)"
  shows "insert_sorted cmp (g x) (map g zs) = map g (insort_key k x zs)"
  by (induction zs) (auto simp: assms)

lemma js_sort_keyed:
  assumes "\<And>x y. (cmp (g x) (g y) \<le> 0) = (k x \<le> k y)"
  shows "js_sort cmp (map g xs) = map g (sort_key k xs)"
proof -
  have "foldr (insert_sorted cmp) (map g xs) [] = map g (foldr (insort_key k) xs [])"
    by (induction xs) (auto simp: insert_sorted_keyed [of cmp g k, OF assms])
  then show ?thesis by (simp add: js_sort_def sort_key_def)
qed

section \<open>Tokens of trimmed and collapsed text\<close>

lemma is_space_lower: "is_space c \<Longrightarrow> toLowerChar c = c"
  by (auto simp: is_space_def toLowerChar_def)

lemma tokens_spaces_left: "\<forall>x \<in> set l. is_space x \<Longrightarrow> tokens (l @ s) = tokens s"
  by (induction l) auto

lemma tokens_spaces_right: "\<forall>x \<in> set r. is_space x \<Longrightarrow> tokens (s @ r) = tokens s"
proof (induction s rule: tokens.induct)
  case 1
  then show ?case using tokens_spaces_left [of r "[]"] by simp
next
  case (2 c cs)
  show ?case
  proof (cases "is_space c")
    case True
    with 2 show ?thesis by simp
  next
    case False
    let ?P = "\<lambda>x. \<not> is_space x"
    have "takeWhile ?P r = []"
      using "2.prems" by (cases r) auto
    then have tk: "takeWhile ?P (cs @ r) = takeWhile ?P cs"
      by (auto simp: takeWhile_append takeWhile_eq_all_conv [THEN iffD2, symmetric])
    have "tokens (dropWhile ?P (cs @ r)) = tokens (dropWhile ?P cs)"
    proof (cases "\<forall>x \<in> set cs. ?P x")
      case True
      then have d1: "dropWhile ?P (cs @ r) = dropWhile ?P r"
        by (simp add: dropWhile_append)
      from True have d0: "dropWhile ?P cs = []" by simp
      have d2: "tokens (dropWhile ?P cs) = []" unfolding d0 by simp
      have "tokens (dropWhile ?P r) = []"
        using tokens_spaces_left [of "dropWhile ?P r" "[]"] "2.prems"
        by (auto dest: set_dropWhileD)
      then show ?thesis unfolding d1 d2 .
    next
      case nall: False
      then have "dropWhile ?P (cs @ r) = dropWhile ?P cs @ r"
        by (auto simp: dropWhile_append)
      with "2.IH"(2) [OF False "2.prems"] show ?thesis by simp
    qed
    with False tk show ?thesis by simp
  qed
qed

lemma trim_decompose:
  "\<exists>l r. s = l @ trim s @ r \<and> (\<forall>x \<in> set l. is_space x) \<and> (\<forall>x \<in> set r. is_space x)"
proof -
  let ?d = "dropWhile is_space s"
  let ?l = "takeWhile is_space s" and ?r = "rev (takeWhile is_space (rev ?d))"
  have "rev ?d = takeWhile is_space (rev ?d) @ dropWhile is_space (rev ?d)" by simp
  then have "?d = rev (dropWhile is_space (rev ?d)) @ ?r"
    by (metis rev_append rev_rev_ident)
  then have "s = ?l @ trim s @ ?r"
    unfolding trim_def by (metis takeWhile_dropWhile_id)
  moreover have "\<forall>x \<in> set ?l. is_space x" by (auto dest: set_takeWhileD)
  moreover have "\<forall>x \<in> set ?r. is_space x" by (auto dest: set_takeWhileD)
  ultimately show ?thesis by blast
qed

lemma tokens_trim: "tokens (trim s) = tokens s"
proof -
  obtain l r where "s = l @ trim s @ r" "\<forall>x \<in> set l. is_space x" "\<forall>x \<in> set r. is_space x"
    using trim_decompose by blast
  then show ?thesis
    by (metis tokens_spaces_left tokens_spaces_right)
qed

lemma collapse_spaces_word:
  "\<forall>x \<in> set w. \<not> is_space x \<Longrightarrow> collapse_spaces (w @ r) = w @ collapse_spaces r"
  by (induction w) auto

lemma tokens_collapse_spaces: "tokens (collapse_spaces s) = tokens s"
proof (induction s rule: length_induct)
  case (1 s)
  show ?case
  proof (cases s)
    case Nil
    then show ?thesis by simp
  next
    case (Cons c cs)
    show ?thesis
    proof (cases "is_space c")
      case True
      have "length (dropWhile is_space cs) < length s"
        using Cons length_dropWhile_le [of is_space cs] by simp
      with 1 have "tokens (collapse_spaces (dropWhile is_space cs)) = tokens (dropWhile is_space cs)"
        by blast
      with True Cons show ?thesis by (simp add: space_is_space tokens_dropWhile)
    next
      case False
      let ?P = "\<lambda>x. \<not> is_space x"
      let ?w = "c # takeWhile ?P cs" and ?r = "dropWhile ?P cs"
      have s: "s = ?w @ ?r" using Cons by simp
      have w: "\<forall>x \<in> set ?w. \<not> is_space x" using False by (auto dest: set_takeWhileD)
      have r: "?r = [] \<or> is_space (hd ?r)"
        by (metis hd_dropWhile)
      have cr: "collapse_spaces ?r = [] \<or> is_space (hd (collapse_spaces ?r))"
      proof (cases ?r)
        case Nil
        show ?thesis unfolding Nil by simp
      next
        case (Cons d ds)
        with r have "is_space d" by simp
        then show ?thesis unfolding Cons by (simp add: space_is_space)
      qed
      have "length ?r < length s"
        using Cons length_dropWhile_le [of ?P cs] by simp
      with 1 have ih: "tokens (collapse_spaces ?r) = tokens ?r" by blast
      have "tokens (collapse_spaces s) = tokens (?w @ collapse_spaces ?r)"
        using collapse_spaces_word [OF w, of ?r] s by metis
      also have "\<dots> = ?w # tokens (collapse_spaces ?r)"
        using tokens_word [OF w _ cr] by simp
      also have "\<dots> = ?w # tokens ?r" by (simp add: ih)
      also have "\<dots> = tokens (?w @ ?r)"
        using tokens_word [OF w _ r] by simp
      finally show ?thesis using s by metis
    qed
  qed
qed

lemma tokens_normalize_text:
  "tokens (normalize_text s) = tokens (replace_non_alnum (toLowerCase s))"
  by (simp add: normalize_text_def tokens_trim tokens_collapse_spaces)

lemma raw_spaces:
  "\<forall>x \<in> set l. is_space x \<Longrightarrow> \<forall>x \<in> set (replace_non_alnum (toLowerCase l)). is_space x"
  by (auto simp: replace_non_alnum_def toLowerCase_def is_space_lower)

lemma tokens_normalize_trim: "tokens (normalize_text (trim s)) = tokens (normalize_text s)"
proof -
  obtain l r where s: "s = l @ trim s @ r" and l: "\<forall>x \<in> set l. is_space x"
      and r: "\<forall>x \<in> set r. is_space x"
    using trim_decompose by blast
  let ?f = "\<lambda>t. replace_non_alnum (toLowerCase t)"
  have "?f s = ?f l @ ?f (trim s) @ ?f r"
    using s by (metis map_append replace_non_alnum_def toLowerCase_def)
  then have "tokens (?f s) = tokens (?f (trim s))"
    using tokens_spaces_left [OF raw_spaces [OF l]] tokens_spaces_right [OF raw_spaces [OF r]]
    by simp
  then show ?thesis by (simp add: tokens_normalize_text)
qed

lemma overlap_ratio_trim: "overlap_ratio q (trim hay) = overlap_ratio q hay"
  by (simp add: overlap_ratio_def tokens_normalize_trim)

lemma overlap_ratio_normalized: "overlap_ratio (normalize_text q) hay = overlap_ratio q hay"
  by (simp add: overlap_ratio_def normalize_text_idem)

section \<open>Ranking and suggestions\<close>

lemma suggestion_score_eq:
  "suggestion_score (normalize_text query) item = Inr (item, Num (combined_score query item))"
  by (simp add: suggestion_score_def Let_def overlapScore_ratio overlap_ratio_trim
      overlap_ratio_normalized levenshtein_edit_distance normalize_text_idem js_add_def
      combined_score_def typo_bonus_def)

lemma map_fault_total: "(\<And>x. f x = Inr (g x)) \<Longrightarrow> map_fault f xs = Inr (map g xs)"
  by (induction xs) auto

lemma suggestions_closed_form:
  "getDidYouMeanSuggestions index query limit_arg =
     Inr (if length (normalize_text query) < 2 then []
          else take (case limit_arg of None \<Rightarrow> 3 | Some l \<Rightarrow> l)
                 (sort_key (\<lambda>item. - combined_score query item)
                    (filter (\<lambda>item. 7 / 20 \<le> combined_score query item) index)))"
proof (cases "length (normalize_text query) < 2")
  case True
  then show ?thesis by (simp add: getDidYouMeanSuggestions_def Let_def)
next
  case False
  let ?g = "\<lambda>item. (item, Num (combined_score query item))"
  let ?cmp = "\<lambda>a b :: IndexEntry \<times> jsnum. js_sub_sign (snd b) (snd a)"
  let ?keep = "filter (\<lambda>item. 7 / 20 \<le> combined_score query item) index"
  have scored: "map_fault (suggestion_score (normalize_text query)) index = Inr (map ?g index)"
    by (rule map_fault_total) (rule suggestion_score_eq)
  have kept: "filter (\<lambda>x. js_ge (snd x) (7 / 20)) (map ?g index) = map ?g ?keep"
    by (simp add: filter_map comp_def js_ge_def)
  have sorted: "js_sort ?cmp (map ?g ?keep) = map ?g (sort_key (\<lambda>item. - combined_score query item) ?keep)"
    by (rule js_sort_keyed) auto
  have "getDidYouMeanSuggestions index query limit_arg =
      Inr (map fst (take (case limit_arg of None \<Rightarrow> 3 | Some l \<Rightarrow> l)
        (js_sort ?cmp (filter (\<lambda>x. js_ge (snd x) (7 / 20)) (map ?g index)))))"
    using False by (simp add: getDidYouMeanSuggestions_def Let_def scored)
  also have "\<dots> = Inr (take (case limit_arg of None \<Rightarrow> 3 | Some l \<Rightarrow> l)
        (sort_key (\<lambda>item. - combined_score query item) ?keep))"
    unfolding kept sorted by (simp add: take_map comp_def)
  finally show ?thesis using False by simp
qed

lemma suggestions_subset:
  assumes "getDidYouMeanSuggestions index query limit_arg = Inr found"
  shows "set found \<subseteq> set index"
proof -
  have "set found \<subseteq> set (sort_key (\<lambda>item. - combined_score query item)
          (filter (\<lambda>item. 7 / 20 \<le> combined_score query item) index))"
    using assms unfolding suggestions_closed_form
    by (auto split: if_splits dest: in_set_takeD)
  then show ?thesis by auto
qed

lemma str_includes_self: "str_includes s s"
  by (simp add: str_includes_def)

lemma str_includes_empty: "str_includes s []"
  by (simp add: str_includes_def)

lemma entry_score_self: "4 \<le> entry_score (title item) item"
  by (simp add: entry_score_def Let_def str_includes_self)

lemma set_searchIndex:
  "set (searchIndex lc index query) =
     (\<lambda>item. with_score item (entry_score query item)) ` {item \<in> set index. 0 < entry_score query item}"
  by (auto simp: searchIndex_def set_js_sort with_score_def)

lemma mset_searchIndex:
  "mset (searchIndex lc index query) =
     mset (filter (\<lambda>x. 0 < score x) (map (\<lambda>item. with_score item (entry_score query item)) index))"
  by (simp add: searchIndex_def mset_js_sort)

lemma rank_compare_before: "(rank_compare lc x y \<le> 0) = rank_before lc x y"
  by (auto simp: rank_compare_def rank_before_def)

lemma sorted_searchIndex:
  assumes total: "\<And>a b. lc a b \<le> 0 \<or> lc b a \<le> 0"
    and trans: "\<And>a b c. lc a b \<le> 0 \<Longrightarrow> lc b c \<le> 0 \<Longrightarrow> lc a c \<le> 0"
  shows "sorted_wrt (rank_before lc) (searchIndex lc index query)"
proof -
  have t: "rank_compare lc a b \<le> 0 \<or> rank_compare lc b a \<le> 0" for a b
    using total [of "title a" "title b"] by (auto simp: rank_compare_def)
  have tr: "rank_compare lc a c \<le> 0" if "rank_compare lc a b \<le> 0" "rank_compare lc b c \<le> 0" for a b c
    using that trans [of "title a" "title b" "title c"]
    by (auto simp: rank_compare_def split: if_splits)
  have "sorted_wrt (\<lambda>a b. rank_compare lc a b \<le> 0)
      (js_sort (rank_compare lc) (filter (\<lambda>x. score x > 0)
         (map (\<lambda>item. with_score item (entry_score query item)) index)))"
    by (rule sorted_js_sort [of "rank_compare lc", OF t tr])
  then show ?thesis by (simp add: searchIndex_def rank_compare_before)
qed

lemma token_bonus_tokens:
  "token_bonus query item =
     min 2 (length (filter (\<lambda>t. sublist t (toLowerCase (join '' '' (title item # keywords' item))))
        (tokens (normalize_text query))))"
proof -
  have "str_includes h = (\<lambda>t. sublist t h)" for h
    by (simp add: fun_eq_iff str_includes_def)
  then show ?thesis
    by (simp add: token_bonus_def Let_def split_spaces_normalized)
qed

lemma normalize_text_empty: "normalize_text [] = []"
  by (simp add: normalize_text_def toLowerCase_def replace_non_alnum_def trim_def)

lemma entry_score_empty_query:
  "entry_score [] item = (if keywords' item = [] then 5 else 8)"
proof -
  have "list_ex (\<lambda>k. True) ks = (ks \<noteq> [])" for ks :: "string list"
    by (cases ks) auto
  then show ?thesis
    by (simp add: entry_score_def Let_def str_includes_empty toLowerCase_def
        token_bonus_tokens normalize_text_empty)
qed

lemma truncate_with_score: "IndexEntry.truncate (with_score item s) = item"
  by (simp add: with_score_def IndexEntry.truncate_def)

lemma compare_units_total: "compare_units a b \<le> 0 \<or> compare_units b a \<le> 0"
  by (induction a b rule: compare_units.induct) auto

lemma compare_units_trans:
  "compare_units a b \<le> 0 \<Longrightarrow> compare_units b c \<le> 0 \<Longrightarrow> compare_units a c \<le> 0"
proof (induction a b arbitrary: c rule: compare_units.induct)
  case 1
  then show ?case by simp
next
  case (2 y ys)
  then show ?case by (cases c) auto
next
  case (3 x xs)
  then show ?case by simp
next
  case (4 x xs y ys)
  show ?case
  proof (cases c)
    case Nil
    with "4.prems" show ?thesis by simp
  next
    case (Cons z zs)
    show ?thesis
    proof (cases "x < y")
      case True
      with "4.prems" Cons show ?thesis by (auto split: if_splits)
    next
      case False
      with "4.prems"(1) have xy: "x = y" and r1: "compare_units xs ys \<le> 0"
        by (auto split: if_splits)
      show ?thesis
      proof (cases "y < z")
        case True
        with xy Cons show ?thesis by simp
      next
        case nlt: False
        with "4.prems"(2) Cons have yz: "y = z" and r2: "compare_units ys zs \<le> 0"
          by (auto split: if_splits)
        from "4.IH" [OF False _ r1 r2] xy yz Cons show ?thesis by simp
      qed
    qed
  qed
qed

lemma codeUnitCompare_total: "codeUnitCompare a b \<le> 0 \<or> codeUnitCompare b a \<le> 0"
  unfolding codeUnitCompare_def by (rule compare_units_total)

lemma codeUnitCompare_trans:
  "codeUnitCompare a b \<le> 0 \<Longrightarrow> codeUnitCompare b c \<le> 0 \<Longrightarrow> codeUnitCompare a c \<le> 0"
  unfolding codeUnitCompare_def by (rule compare_units_trans)

section \<open>Bounds and worked examples\<close>

lemma edit_distance_Least: "edit_distance xs ys = (LEAST k. edits k xs ys)"
  by (rule Least_equality [symmetric]) (auto intro: edits_edit_distance edit_distance_least)

lemma length_collapse_spaces: "length (collapse_spaces s) \<le> length s"
proof (induction s rule: collapse_spaces.induct)
  case 1
  show ?case by simp
next
  case (2 c cs)
  show ?case
  proof (cases "is_space c")
    case True
    with "2.IH"(1) length_dropWhile_le [of is_space cs] show ?thesis by simp
  next
    case False
    with "2.IH"(2) show ?thesis by simp
  qed
qed

lemma length_trim: "length (trim s) \<le> length s"
  unfolding trim_def
  using length_dropWhile_le [of is_space "rev (dropWhile is_space s)"]
    length_dropWhile_le [of is_space s] by simp

lemma length_normalize_text: "length (normalize_text x) \<le> length x"
  unfolding normalize_text_def
  using length_trim [of "collapse_spaces (replace_non_alnum (toLowerCase x))"]
    length_collapse_spaces [of "replace_non_alnum (toLowerCase x)"]
  by (simp add: replace_non_alnum_def toLowerCase_def)

lemma length_searchIndex: "length (searchIndex lc index query) \<le> length index"
proof -
  have "length (searchIndex lc index query)
      = length (filter (\<lambda>x. 0 < score x) (map (\<lambda>item. with_score item (entry_score query item)) index))"
    using mset_searchIndex [of lc index query] by (metis size_mset)
  also have "\<dots> \<le> length index"
    using length_filter_le [of _ "map (\<lambda>item. with_score item (entry_score query item)) index"] by simp
  finally show ?thesis .
qed

lemma lvtt_rank_empty: "searchIndex lc example_index ''lvtt'' = []"
proof -
  have "filter (\<lambda>x. score x > 0)
      (map (\<lambda>item. with_score item (entry_score ''lvtt'' item)) example_index) = []"
    by code_simp
  then show ?thesis by (simp add: searchIndex_def js_sort_def)
qed

lemma lvtt_suggest_empty: "getDidYouMeanSuggestions example_index ''lvtt'' (Some 3) = Inr []"
  by code_simp

lemma lvtt_scores:
  "suggestion_score (normalize_text ''lvtt'') lvt_entry = Inr (lvt_entry, Num (1 / 8))"
  "suggestion_score (normalize_text ''lvtt'') laminate_entry = Inr (laminate_entry, Num 0)"
  by code_simp+

lemma lvtt_distance: "levenshtein ''lvtt'' (title lvt_entry) = Inr 17"
  by code_simp

lemma vinyls_suggest: "getDidYouMeanSuggestions vinyl_index ''vinyls'' (Some 3) = Inr [vinyl_entry]"
  by code_simp

lemma vinyls_rank_empty: "searchIndex lc vinyl_index ''vinyls'' = []"
proof -
  have "filter (\<lambda>x. score x > 0)
      (map (\<lambda>item. with_score item (entry_score ''vinyls'' item)) vinyl_index) = []"
    by code_simp
  then show ?thesis by (simp add: searchIndex_def js_sort_def)
qed

lemma vinyl_rank:
  "searchIndex lc vinyl_index (title vinyl_entry) = [with_score plank_entry 9, with_score vinyl_entry 6]"
proof -
  have "filter (\<lambda>x. score x > 0)
      (map (\<lambda>item. with_score item (entry_score (title vinyl_entry) item)) vinyl_index)
      = [with_score vinyl_entry 6, with_score plank_entry 9]"
    by code_simp
  then show ?thesis
    by (simp add: searchIndex_def js_sort_def rank_compare_def with_score_def)
qed

lemma empty_rank_vinyl:
  "searchIndex lc vinyl_index '''' = [with_score plank_entry 8, with_score vinyl_entry 5]"
proof -
  have "filter (\<lambda>x. score x > 0)
      (map (\<lambda>item. with_score item (entry_score '''' item)) vinyl_index)
      = [with_score vinyl_entry 5, with_score plank_entry 8]"
    by code_simp
  then show ?thesis
    by (simp add: searchIndex_def js_sort_def rank_compare_def with_score_def)
qed

lemma token_bonus_twice: "token_bonus ''lvt lvt'' lvt_entry = 2"
  by code_simp

lemma distinct_token_bonus_twice: "distinct_token_bonus ''lvt lvt'' lvt_entry = 1"
  by code_simp

lemma abc_distance: "levenshtein '''' ''abc'' = Inr 3"
  by code_simp

lemma score_with_score: "score (with_score item s) = s"
  by (simp add: with_score_def)

lemma keywords_with_score: "keywords' (with_score item s) = keywords' item"
  by (simp add: with_score_def)

lemma searchIndex_positive: "x \<in> set (searchIndex lc index query) \<Longrightarrow> 0 < score x"
  unfolding set_searchIndex by (auto simp: score_with_score)

lemma empty_query_all:
  "mset (map IndexEntry.truncate (searchIndex lc index [])) = mset index"
proof -
  let ?ws = "\<lambda>item. with_score item (entry_score [] item)"
  have pos: "filter (\<lambda>x. 0 < score x) (map ?ws index) = map ?ws index"
    by (rule filter_True) (auto simp: score_with_score entry_score_empty_query)
  have "mset (map IndexEntry.truncate (searchIndex lc index []))
      = image_mset IndexEntry.truncate (mset (searchIndex lc index []))"
    by simp
  also have "\<dots> = image_mset IndexEntry.truncate (mset (map ?ws index))"
    by (simp only: mset_searchIndex pos)
  also have "\<dots> = mset (map (\<lambda>item. IndexEntry.truncate (?ws item)) index)"
    by (simp add: multiset.map_comp comp_def)
  also have "\<dots> = mset index"
    by (simp add: truncate_with_score)
  finally show ?thesis .
qed

lemma empty_query_scores:
  "x \<in> set (searchIndex lc index []) \<Longrightarrow> score x = (if keywords' x = [] then 5 else 8)"
  unfolding set_searchIndex
  by (auto simp: score_with_score keywords_with_score entry_score_empty_query)

lemma example_rank_empty:
  "searchIndex codeUnitCompare example_index '''' = [with_score laminate_entry 8, with_score lvt_entry 8]"
  by code_simp

lemma example_rank_lvt:
  "searchIndex codeUnitCompare example_index ''lvt'' = [with_score lvt_entry 9]"
  by code_simp

lemma overlap_example: "overlap_ratio ''floor lvt'' ''Flooring types'' = 1 / 2"
  by code_simp

lemma kitten_distance: "edit_distance (normalize_text ''Kitten'') (normalize_text ''sitting!'') = 3"
  by code_simp

lemma punct_empty: "normalize_text ''?!'' = []"
  by code_simp

lemma abc_normal: "normalize_text ''abc'' = ''abc''"
  by code_simp

lemma normalize_example: "normalize_text ''  Luxury Vinyl-Tile (LVT)  '' = ''luxury vinyl tile lvt''"
  by code_simp

section \<open>The claims\<close>

text \<open>
  Claim C1, as the code has it. For the index of the two entries "Luxury Vinyl Tile (LVT)"
  and "Laminate Flooring" and the query \<open>lvtt\<close>, \<open>searchIndex\<close> returns the empty
  sequence, whatever the collation, and \<open>getDidYouMeanSuggestions\<close> with limit 3 returns
  the empty sequence as well: the LVT entry scores \<open>1/8\<close> (one hit over eight tokens, and no
  typo bonus, the distance between the query and the whole title being 17), the Laminate
  entry scores \<open>0\<close>, and both are below the threshold \<open>0.35\<close>.
\<close>

theorem lvtt_example:
  "searchIndex lc example_index ''lvtt'' = []
   \<and> getDidYouMeanSuggestions example_index ''lvtt'' (Some 3) = Inr []
   \<and> suggestion_score (normalize_text ''lvtt'') lvt_entry = Inr (lvt_entry, Num (1 / 8))
   \<and> suggestion_score (normalize_text ''lvtt'') laminate_entry = Inr (laminate_entry, Num 0)
   \<and> levenshtein ''lvtt'' (title lvt_entry) = Inr 17"
proof (intro conjI)
  show "searchIndex lc example_index ''lvtt'' = []"
    by (rule lvtt_rank_empty)
  show "getDidYouMeanSuggestions example_index ''lvtt'' (Some 3) = Inr []"
    by (rule lvtt_suggest_empty)
  show "suggestion_score (normalize_text ''lvtt'') lvt_entry = Inr (lvt_entry, Num (1 / 8))"
    by (rule lvtt_scores)
  show "suggestion_score (normalize_text ''lvtt'') laminate_entry = Inr (laminate_entry, Num 0)"
    by (rule lvtt_scores)
  show "levenshtein ''lvtt'' (title lvt_entry) = Inr 17"
    by (rule lvtt_distance)
qed

theorem lvtt_example_witness:
  "searchIndex codeUnitCompare example_index ''lvtt'' = []
   \<and> getDidYouMeanSuggestions example_index ''lvtt'' (Some 3) = Inr []
   \<and> suggestion_score (normalize_text ''lvtt'') lvt_entry = Inr (lvt_entry, Num (1 / 8))
   \<and> suggestion_score (normalize_text ''lvtt'') laminate_entry = Inr (laminate_entry, Num 0)
   \<and> levenshtein ''lvtt'' (title lvt_entry) = Inr 17"
  by (rule lvtt_example)

theorem lvtt_counterexample:
  "getDidYouMeanSuggestions example_index ''lvtt'' (Some 3) = Inr []
   \<and> getDidYouMeanSuggestions example_index ''lvtt'' (Some 3) \<noteq> Inr [lvt_entry]
   \<and> suggestion_score (normalize_text ''lvtt'') lvt_entry = Inr (lvt_entry, Num (1 / 8))
   \<and> \<not> js_ge (Num (1 / 8)) (7 / 20)"
  by (simp add: lvtt_suggest_empty lvtt_scores js_ge_def)

text \<open>
  Claim C2, as the code has it. An entry that \<open>getDidYouMeanSuggestions\<close> returns is an
  entry of the index, and when its own title is the query, \<open>searchIndex\<close> over the same
  index lists it, with a score of at least 4 (its lower-cased title contains the lower-cased
  query). It need not be the first element: an entry whose title, keywords and URL all
  contain that title scores more.
\<close>

theorem suggestion_self_match:
  assumes "getDidYouMeanSuggestions index query limit_arg = Inr found" and "s \<in> set found"
  shows "s \<in> set index
    \<and> with_score s (entry_score (title s) s) \<in> set (searchIndex lc index (title s))
    \<and> 4 \<le> entry_score (title s) s"
proof -
  have s: "s \<in> set index"
    using suggestions_subset [OF assms(1)] assms(2) by blast
  have four: "4 \<le> entry_score (title s) s"
    by (rule entry_score_self)
  then have "0 < entry_score (title s) s" by simp
  with s have "with_score s (entry_score (title s) s) \<in> set (searchIndex lc index (title s))"
    unfolding set_searchIndex by blast
  with s four show ?thesis by blast
qed

theorem suggestion_self_match_witness:
  "getDidYouMeanSuggestions vinyl_index ''vinyls'' (Some 3) = Inr [vinyl_entry]
   \<and> vinyl_entry \<in> set [vinyl_entry]
   \<and> vinyl_entry \<in> set vinyl_index
   \<and> with_score vinyl_entry (entry_score (title vinyl_entry) vinyl_entry)
        \<in> set (searchIndex codeUnitCompare vinyl_index (title vinyl_entry))
   \<and> 4 \<le> entry_score (title vinyl_entry) vinyl_entry"
proof -
  have f: "getDidYouMeanSuggestions vinyl_index ''vinyls'' (Some 3) = Inr [vinyl_entry]"
    by (rule vinyls_suggest)
  have m: "vinyl_entry \<in> set [vinyl_entry]" by simp
  from suggestion_self_match [OF f m, of codeUnitCompare] f m show ?thesis by blast
qed

theorem suggestion_self_match_counterexample:
  "searchIndex codeUnitCompare vinyl_index ''vinyls'' = []
   \<and> getDidYouMeanSuggestions vinyl_index ''vinyls'' (Some 3) = Inr [vinyl_entry]
   \<and> searchIndex codeUnitCompare vinyl_index (title vinyl_entry)
       = [with_score plank_entry 9, with_score vinyl_entry 6]
   \<and> IndexEntry.truncate (hd (searchIndex codeUnitCompare vinyl_index (title vinyl_entry))) \<noteq> vinyl_entry"
proof -
  have "plank_entry \<noteq> vinyl_entry"
    by (simp add: plank_entry_def vinyl_entry_def)
  then show ?thesis
    unfolding vinyls_rank_empty vinyls_suggest vinyl_rank by (simp add: truncate_with_score)
qed

text \<open>
  Claim C3, as the code has it. The token bonus that \<open>searchIndex\<close> adds to the score of an
  entry is \<open>min(2, hitCount)\<close>, where \<open>hitCount\<close> is the number of tokens of the normalized
  query, each occurrence counted, that occur as substrings of the lower-cased haystack made
  of the title and the keywords: a token that the query repeats counts every time.
\<close>

theorem token_bonus_counts_occurrences:
  "token_bonus query item =
     min 2 (length (filter (\<lambda>t. sublist t (toLowerCase (join '' '' (title item # keywords' item))))
        (tokens (normalize_text query))))"
proof -
  have "nonempty_only (split_spaces [] (normalize_text query)) = tokens (normalize_text query)"
    by (rule split_spaces_normalized)
  moreover have "str_includes h = (\<lambda>t. sublist t h)" for h
    by (simp add: fun_eq_iff str_includes_def)
  ultimately show ?thesis
    by (simp add: token_bonus_def Let_def)
qed

theorem token_bonus_counts_occurrences_witness:
  "token_bonus ''lvt lvt'' lvt_entry =
     min 2 (length (filter (\<lambda>t. sublist t (toLowerCase (join '' '' (title lvt_entry # keywords' lvt_entry))))
        (tokens (normalize_text ''lvt lvt''))))"
  by (rule token_bonus_counts_occurrences)

theorem token_bonus_distinct_counterexample:
  "token_bonus ''lvt lvt'' lvt_entry = 2 \<and> distinct_token_bonus ''lvt lvt'' lvt_entry = 1"
  by (simp add: token_bonus_twice distinct_token_bonus_twice)



text \<open>
  Claim C5. For a collation \<open>localeCompare\<close> that is a consistent comparator (any two
  titles are comparable, and the comparison is transitive), \<open>searchIndex\<close> returns exactly
  the entries of the index whose score is not 0, each with its score, and the returned
  sequence is sorted by descending score, with equal scores in ascending order of the
  titles under the collation.
\<close>

theorem rank_contract:
  assumes "\<And>a b. lc a b \<le> 0 \<or> lc b a \<le> 0"
    and "\<And>a b c. lc a b \<le> 0 \<Longrightarrow> lc b c \<le> 0 \<Longrightarrow> lc a c \<le> 0"
  shows "(\<forall>x \<in> set (searchIndex lc index query). 0 < score x)
    \<and> set (searchIndex lc index query)
        = (\<lambda>item. with_score item (entry_score query item)) ` {item \<in> set index. 0 < entry_score query item}
    \<and> sorted_wrt (\<lambda>x y. score y < score x \<or> (score x = score y \<and> lc (title x) (title y) \<le> 0))
          (searchIndex lc index query)"
proof -
  have "sorted_wrt (rank_before lc) (searchIndex lc index query)"
    by (rule sorted_searchIndex [OF assms])
  then have "sorted_wrt (\<lambda>x y. score y < score x \<or> (score x = score y \<and> lc (title x) (title y) \<le> 0))
      (searchIndex lc index query)"
    by (simp add: rank_before_def [abs_def])
  moreover have "\<forall>x \<in> set (searchIndex lc index query). 0 < score x"
    by (blast intro: searchIndex_positive)
  ultimately show ?thesis
    using set_searchIndex [of lc index query] by blast
qed

theorem rank_contract_witness:
  "searchIndex codeUnitCompare example_index '''' = [with_score laminate_entry 8, with_score lvt_entry 8]
   \<and> sorted_wrt (\<lambda>x y. score y < score x
          \<or> (score x = score y \<and> codeUnitCompare (title x) (title y) \<le> 0))
        (searchIndex codeUnitCompare example_index '''')
   \<and> searchIndex codeUnitCompare example_index ''lvt'' = [with_score lvt_entry 9]
   \<and> entry_score ''lvt'' laminate_entry = 0"
proof -
  have z: "entry_score ''lvt'' laminate_entry = 0" by code_simp
  have "(\<forall>x \<in> set (searchIndex codeUnitCompare example_index ''''). 0 < score x)
    \<and> set (searchIndex codeUnitCompare example_index '''')
        = (\<lambda>item. with_score item (entry_score '''' item)) ` {item \<in> set example_index. 0 < entry_score '''' item}
    \<and> sorted_wrt (\<lambda>x y. score y < score x
          \<or> (score x = score y \<and> codeUnitCompare (title x) (title y) \<le> 0))
        (searchIndex codeUnitCompare example_index '''')"
  proof (rule rank_contract)
    show "codeUnitCompare a b \<le> 0 \<or> codeUnitCompare b a \<le> 0" for a b
      by (rule codeUnitCompare_total)
    show "codeUnitCompare a c \<le> 0" if "codeUnitCompare a b \<le> 0" "codeUnitCompare b c \<le> 0" for a b c
      using that by (rule codeUnitCompare_trans)
  qed
  with example_rank_empty example_rank_lvt z show ?thesis by blast
qed

text \<open>
  Claim C6. \<open>levenshtein\<close> returns the Levenshtein distance between the normalized forms
  of its arguments: the value of the textbook recursion \<open>edit_distance\<close>, which is the least
  number of single-character substitutions, deletions and insertions that turn the one into
  the other. When a normalized string is empty the result is the length of the other one;
  the distance of a string to itself is 0, the distance is symmetric, and the distance
  between the empty string and \<open>abc\<close> is 3. No access to the table is out of range.
\<close>

theorem levenshtein_classic:
  "levenshtein a b = Inr (edit_distance (normalize_text a) (normalize_text b))
   \<and> edit_distance (normalize_text a) (normalize_text b)
       = (LEAST k. edits k (normalize_text a) (normalize_text b))
   \<and> (normalize_text a = [] \<longrightarrow> levenshtein a b = Inr (length (normalize_text b)))
   \<and> (normalize_text b = [] \<longrightarrow> levenshtein a b = Inr (length (normalize_text a)))
   \<and> levenshtein a a = Inr 0
   \<and> levenshtein a b = levenshtein b a
   \<and> levenshtein '''' ''abc'' = Inr 3"
proof -
  have "levenshtein a b = levenshtein b a"
    using edit_distance_sym [of "normalize_text a" "normalize_text b"]
    by (simp add: levenshtein_edit_distance)
  moreover have "normalize_text a = [] \<longrightarrow> levenshtein a b = Inr (length (normalize_text b))"
    by (simp add: levenshtein_edit_distance)
  moreover have "normalize_text b = [] \<longrightarrow> levenshtein a b = Inr (length (normalize_text a))"
    by (simp add: levenshtein_edit_distance edit_distance_Nil_right)
  moreover have "levenshtein a a = Inr 0"
    by (simp add: levenshtein_edit_distance edit_distance_refl)
  ultimately show ?thesis
    using levenshtein_edit_distance [of a b]
      edit_distance_Least [of "normalize_text a" "normalize_text b"] abc_distance
    by blast
qed

theorem levenshtein_classic_witness:
  "normalize_text ''?!'' = []
   \<and> levenshtein ''?!'' ''abc'' = Inr 3
   \<and> levenshtein ''abc'' ''?!'' = Inr 3
   \<and> levenshtein ''Kitten'' ''sitting!'' = Inr 3
   \<and> levenshtein ''sitting!'' ''Kitten'' = Inr 3"
proof -
  have e: "normalize_text ''?!'' = []" by (rule punct_empty)
  have n: "length (normalize_text ''abc'') = 3" by (simp add: abc_normal)
  from levenshtein_classic [of "''?!''" "''abc''"]
  have "normalize_text ''?!'' = [] \<longrightarrow> levenshtein ''?!'' ''abc'' = Inr (length (normalize_text ''abc''))"
    by blast
  with e n have a: "levenshtein ''?!'' ''abc'' = Inr 3" by simp
  from levenshtein_classic [of "''abc''" "''?!''"]
  have "normalize_text ''?!'' = [] \<longrightarrow> levenshtein ''abc'' ''?!'' = Inr (length (normalize_text ''abc''))"
    by blast
  with e n have b: "levenshtein ''abc'' ''?!'' = Inr 3" by simp
  from levenshtein_classic [of "''Kitten''" "''sitting!''"]
  have k: "levenshtein ''Kitten'' ''sitting!''
        = Inr (edit_distance (normalize_text ''Kitten'') (normalize_text ''sitting!''))"
    and sym: "levenshtein ''Kitten'' ''sitting!'' = levenshtein ''sitting!'' ''Kitten''"
    by blast+
  from k have c: "levenshtein ''Kitten'' ''sitting!'' = Inr 3"
    by (simp only: kitten_distance)
  with sym have d: "levenshtein ''sitting!'' ''Kitten'' = Inr 3" by simp
  from e a b c d show ?thesis by blast
qed

text \<open>
  Claim C7. \<open>overlapScore\<close> returns the number of hits over the larger of the two token
  counts, the tokens being those of the normalized query and the normalized haystack, and a
  query token being a hit when it is a substring of some haystack token or some haystack
  token is a substring of it; the result is a number between 0 and 1, and it is 0 when
  either side has no token.
\<close>

theorem overlap_contract:
  "overlapScore query haystack = Num (overlap_ratio query haystack)
   \<and> 0 \<le> overlap_ratio query haystack \<and> overlap_ratio query haystack \<le> 1
   \<and> (tokens (normalize_text query) = [] \<or> tokens (normalize_text haystack) = []
        \<longrightarrow> overlapScore query haystack = Num 0)
   \<and> (tokens (normalize_text query) \<noteq> [] \<and> tokens (normalize_text haystack) \<noteq> []
        \<longrightarrow> overlapScore query haystack =
            Num (of_nat (length (filter
                   (\<lambda>w. \<exists>hw \<in> set (tokens (normalize_text haystack)). sublist w hw \<or> sublist hw w)
                   (tokens (normalize_text query))))
                 / of_nat (max (length (tokens (normalize_text query)))
                               (length (tokens (normalize_text haystack))))))"
proof -
  have "token_hit hs = (\<lambda>w. \<exists>hw \<in> set hs. sublist w hw \<or> sublist hw w)" for hs :: "string list"
    by (simp add: fun_eq_iff token_hit_def)
  then show ?thesis
    using overlap_ratio_bounds [of query haystack]
    by (auto simp: overlapScore_ratio overlap_ratio_def Let_def simp del: of_nat_max)
qed

theorem overlap_contract_witness:
  "overlapScore ''floor lvt'' ''Flooring types'' = Num (1 / 2)
   \<and> tokens (normalize_text ''?!'') = []
   \<and> overlapScore ''?!'' ''Flooring types'' = Num 0
   \<and> overlapScore ''floor'' ''?!'' = Num 0"
proof -
  have e: "tokens (normalize_text ''?!'') = []" by (simp add: punct_empty)
  from overlap_contract [of "''floor lvt''" "''Flooring types''"] overlap_example
  have a: "overlapScore ''floor lvt'' ''Flooring types'' = Num (1 / 2)" by simp
  from overlap_contract [of "''?!''" "''Flooring types''"] e
  have b: "overlapScore ''?!'' ''Flooring types'' = Num 0" by blast
  from overlap_contract [of "''floor''" "''?!''"] e
  have c: "overlapScore ''floor'' ''?!'' = Num 0" by blast
  from a b c e show ?thesis by blast
qed

text \<open>
  Claim C8. \<open>normalize\<close> is idempotent: normalizing a normalized string changes nothing.
\<close>

theorem normalize_idempotent: "normalize_text (normalize_text x) = normalize_text x"
proof -
  let ?n = "normalize_text x"
  have c: "clean ?n" by (rule normalize_text_clean)
  have "normalize_text ?n = trim ?n"
    unfolding normalize_text_def [of ?n]
    by (simp add: toLowerCase_clean [OF c] replace_non_alnum_clean [OF c] collapse_spaces_clean [OF c])
  also have "trim ?n = ?n"
    by (simp add: normalize_text_def trim_idem)
  finally show ?thesis .
qed

theorem normalize_idempotent_witness:
  "normalize_text ''  Luxury Vinyl-Tile (LVT)  '' = ''luxury vinyl tile lvt''
   \<and> normalize_text ''luxury vinyl tile lvt'' = ''luxury vinyl tile lvt''"
  using normalize_idempotent [of "''  Luxury Vinyl-Tile (LVT)  ''"]
  by (simp add: normalize_example)

text \<open>
  Claim C9. The five functions are total on strings and on indexes of entries with string
  fields, the empty string and the empty lists included. \<open>normalize\<close> and \<open>searchIndex\<close>
  have no failing operation, and their loops end: they return a string no longer than the
  argument and a ranking no longer than the index. \<open>levenshtein\<close> never reaches an access
  outside its table, so it returns a number, which is neither a \<open>TypeError\<close> nor \<open>NaN\<close>;
  \<open>overlapScore\<close> divides by a count that is not 0, so it returns a number and not \<open>NaN\<close>;
  and \<open>getDidYouMeanSuggestions\<close> returns a sequence of entries.
\<close>

theorem core_total:
  "length (normalize_text x) \<le> length x
   \<and> (\<exists>d. levenshtein a b = Inr d)
   \<and> (\<exists>r. overlapScore q hay = Num r)
   \<and> length (searchIndex lc index query) \<le> length index
   \<and> (\<exists>found. getDidYouMeanSuggestions index query limit_arg = Inr found)"
  using length_normalize_text [of x] levenshtein_edit_distance [of a b] overlapScore_ratio [of q hay]
    length_searchIndex [of lc index query] suggestions_closed_form [of index query limit_arg]
  by blast

theorem core_total_witness:
  "length (normalize_text '''') \<le> length ('''' :: string)
   \<and> (\<exists>d. levenshtein '''' '''' = Inr d)
   \<and> (\<exists>r. overlapScore '''' '''' = Num r)
   \<and> length (searchIndex codeUnitCompare [] '''') \<le> length ([] :: IndexEntry list)
   \<and> (\<exists>found. getDidYouMeanSuggestions [] '''' None = Inr found)"
  by (rule core_total)

text \<open>
  Claim C10, as the code has it. For a collation that is a consistent comparator,
  \<open>searchIndex\<close> with the empty query returns every entry of the index: an entry scores 5
  when it has no keyword (\<open>+4\<close> and \<open>+1\<close>, the title and the URL containing the empty
  string) and 8 when it has one (\<open>+3\<close>, a keyword containing the empty string as well), so
  no entry is excluded. The result is the whole index sorted by descending score and, for
  equal scores, by ascending title.
\<close>

theorem empty_query_rank:
  assumes "\<And>a b. lc a b \<le> 0 \<or> lc b a \<le> 0"
    and "\<And>a b c. lc a b \<le> 0 \<Longrightarrow> lc b c \<le> 0 \<Longrightarrow> lc a c \<le> 0"
  shows "mset (map IndexEntry.truncate (searchIndex lc index '''')) = mset index
    \<and> (\<forall>x \<in> set (searchIndex lc index ''''). score x = (if keywords' x = [] then 5 else 8))
    \<and> sorted_wrt (\<lambda>x y. score y < score x \<or> (score x = score y \<and> lc (title x) (title y) \<le> 0))
          (searchIndex lc index '''')"
proof -
  have "sorted_wrt (rank_before lc) (searchIndex lc index '''')"
    by (rule sorted_searchIndex [OF assms])
  then have "sorted_wrt (\<lambda>x y. score y < score x \<or> (score x = score y \<and> lc (title x) (title y) \<le> 0))
      (searchIndex lc index '''')"
    by (simp add: rank_before_def [abs_def])
  then show ?thesis
    using empty_query_all [of lc index] empty_query_scores [of _ lc index] by blast
qed

theorem empty_query_rank_witness:
  "searchIndex codeUnitCompare example_index '''' = [with_score laminate_entry 8, with_score lvt_entry 8]
   \<and> mset (map IndexEntry.truncate (searchIndex codeUnitCompare example_index '''')) = mset example_index
   \<and> sorted_wrt (\<lambda>x y. score y < score x
          \<or> (score x = score y \<and> codeUnitCompare (title x) (title y) \<le> 0))
        (searchIndex codeUnitCompare example_index '''')"
proof -
  have "mset (map IndexEntry.truncate (searchIndex codeUnitCompare example_index '''')) = mset example_index
    \<and> (\<forall>x \<in> set (searchIndex codeUnitCompare example_index '''').
          score x = (if keywords' x = [] then 5 else 8))
    \<and> sorted_wrt (\<lambda>x y. score y < score x
          \<or> (score x = score y \<and> codeUnitCompare (title x) (title y) \<le> 0))
        (searchIndex codeUnitCompare example_index '''')"
  proof (rule empty_query_rank)
    show "codeUnitCompare a b \<le> 0 \<or> codeUnitCompare b a \<le> 0" for a b
      by (rule codeUnitCompare_total)
    show "codeUnitCompare a c \<le> 0" if "codeUnitCompare a b \<le> 0" "codeUnitCompare b c \<le> 0" for a b c
      using that by (rule codeUnitCompare_trans)
  qed
  with example_rank_empty show ?thesis by blast
qed

theorem empty_query_title_order_counterexample:
  "searchIndex codeUnitCompare vinyl_index '''' = [with_score plank_entry 8, with_score vinyl_entry 5]
   \<and> map title (searchIndex codeUnitCompare vinyl_index '''') = [''Vinyl Plank'', ''Vinyl'']
   \<and> codeUnitCompare ''Vinyl Plank'' ''Vinyl'' = 1
   \<and> \<not> sorted_wrt (\<lambda>x y. codeUnitCompare (title x) (title y) \<le> 0)
          (searchIndex codeUnitCompare vinyl_index '''')"
proof -
  have c: "codeUnitCompare ''Vinyl Plank'' ''Vinyl'' = 1" by code_simp
  have t: "title (with_score plank_entry 8) = ''Vinyl Plank''" "title (with_score vinyl_entry 5) = ''Vinyl''"
    by (simp_all add: with_score_def plank_entry_def vinyl_entry_def)
  show ?thesis
    unfolding empty_rank_vinyl by (simp add: t c)
qed

end
